theory Spec2Isabelle
  imports Main "HOL-Library.Sublist"
begin

section \<open>The parser of weirdc (\<^verbatim>\<open>weirdc/ast.py\<close>)\<close>

text \<open>
  The module turns a stream of tokens into abstract syntax trees. Its two classes are
  \<^verbatim>\<open>_HandyDandyTokenIterator\<close>, a cursor with lookahead over a one-pass iterator, and
  \<^verbatim>\<open>_Parser\<close>, a recursive-descent parser that reads through the cursor.

  Every method is modelled as a function from the cursor's state to a result and the
  state afterwards. A Python exception is a value \<open>Inl e\<close>; the state is kept on that
  path too, since the cursor is mutated up to the point of the raise.
\<close>

subsection \<open>Tokens\<close>

text \<open>
  Modelled from the spec: the token type of \<^verbatim>\<open>weirdc.tokenizer\<close>, which is not part of
  \<^verbatim>\<open>ast.py\<close>. A token has a \<^verbatim>\<open>kind\<close>, a \<^verbatim>\<open>value\<close> (the raw text) and the positions
  \<^verbatim>\<open>start\<close> and \<^verbatim>\<open>end\<close>, which the parser only copies; the type of positions is left
  open. The code compares \<^verbatim>\<open>token.info\<close> with pairs such as \<^verbatim>\<open>('OP', ')')\<close>, so \<^verbatim>\<open>info\<close> is
  the pair of kind and value. Characters of a string are code points below 256.
\<close>

record 'pos token =
  token_kind :: string
  token_value :: string
  token_start :: 'pos
  token_end :: 'pos

definition info :: "'pos token \<Rightarrow> string \<times> string" where
  "info t = (token_kind t, token_value t)"

subsection \<open>Exceptions\<close>

text \<open>
  The exceptions the module can raise, told apart by class and by the message the code
  attaches:
  \<^item> \<open>EOFError\<close>: \<^verbatim>\<open>coming_up\<close> found the iterator exhausted
    (the spec's \<^verbatim>\<open>UnexpectedEndOfInput\<close>);
  \<^item> \<open>StopIteration\<close>: \<^verbatim>\<open>pop\<close> called \<^verbatim>\<open>next\<close> on the exhausted iterator;
  \<^item> \<open>IndexError\<close>: the deque was indexed out of range;
  \<^item> \<open>AssertionError_token t\<close>: an \<^verbatim>\<open>assert\<close> of \<^verbatim>\<open>check_and_pop\<close> failed, its message is the
    upcoming token (the spec's \<^verbatim>\<open>UnexpectedToken\<close>);
  \<^item> \<open>AssertionError_keyword v\<close>: the \<^verbatim>\<open>assert\<close> of \<^verbatim>\<open>parse_name\<close> failed, its message is
    the token's value (the spec's \<^verbatim>\<open>ReservedKeywordUsed\<close>);
  \<^item> \<open>ValueError_invalid_token t\<close>: the \<^verbatim>\<open>raise ValueError\<close> of \<^verbatim>\<open>parse_expression\<close>
    (the spec's \<^verbatim>\<open>InvalidToken\<close>);
  \<^item> \<open>ValueError_int v\<close>: \<^verbatim>\<open>int(token.value)\<close> rejected the text \<open>v\<close>;
  \<^item> \<open>AttributeError\<close>: the attribute \<^verbatim>\<open>name\<close> was read from a node that has none.

  Assertions are taken as enabled (Python without \<^verbatim>\<open>-O\<close>). \<open>OutOfFuel\<close> is not a
  Python exception: the recursion and the loops of the parser are modelled with a
  counter, and \<open>OutOfFuel\<close> is the result when the counter was too small.
\<close>

datatype 'pos error =
    EOFError
  | StopIteration
  | IndexError
  | AssertionError_token "'pos token"
  | AssertionError_keyword string
  | ValueError_invalid_token "'pos token"
  | ValueError_int string
  | AttributeError
  | OutOfFuel

definition return_value :: "'a \<Rightarrow> 's \<Rightarrow> ('e + 'a) \<times> 's" where
  "return_value x c = (Inr x, c)"

definition raise :: "'e \<Rightarrow> 's \<Rightarrow> ('e + 'a) \<times> 's" where
  "raise e c = (Inl e, c)"

text \<open>Sequencing of two statements: when the first raises, the second is not run.\<close>

definition and_then ::
  "('s \<Rightarrow> ('e + 'a) \<times> 's) \<Rightarrow> ('a \<Rightarrow> 's \<Rightarrow> ('e + 'b) \<times> 's) \<Rightarrow> 's \<Rightarrow> ('e + 'b) \<times> 's" where
  "and_then m f c = (case m c of (Inl e, c') \<Rightarrow> (Inl e, c') | (Inr x, c') \<Rightarrow> f x c')"

subsection \<open>The token cursor \<^verbatim>\<open>_HandyDandyTokenIterator\<close>\<close>

text \<open>
  \<open>iterator\<close> holds the tokens the underlying iterator has not produced yet, in order:
  \<^verbatim>\<open>next\<close> removes the head, and raises \<^verbatim>\<open>StopIteration\<close> on the empty list.
  \<open>coming_up_stack\<close> is the deque, leftmost element first: \<^verbatim>\<open>appendleft\<close> is \<open>#\<close>, \<^verbatim>\<open>pop()\<close>
  removes \<open>last\<close>.
\<close>

record 'pos cursor =
  iterator :: "'pos token list"
  coming_up_stack :: "'pos token list"

definition new_cursor :: "'pos token list \<Rightarrow> 'pos cursor" where
  "new_cursor iterable = \<lparr>iterator = iterable, coming_up_stack = []\<rparr>"

definition pop :: "'pos cursor \<Rightarrow> ('pos error + 'pos token) \<times> 'pos cursor" where
  "pop c =
     (if coming_up_stack c \<noteq> []
      then (Inr (last (coming_up_stack c)), c\<lparr>coming_up_stack := butlast (coming_up_stack c)\<rparr>)
      else (case iterator c of
              [] \<Rightarrow> (Inl StopIteration, c)
            | t # ts \<Rightarrow> (Inr t, c\<lparr>iterator := ts\<rparr>)))"

text \<open>\<^verbatim>\<open>deque[i]\<close>: a negative index counts from the right end.\<close>

definition deque_index :: "'a list \<Rightarrow> int \<Rightarrow> 'pos error + 'a" where
  "deque_index xs i =
     (if 0 \<le> i
      then (if i < int (length xs) then Inr (xs ! nat i) else Inl IndexError)
      else (if - i \<le> int (length xs) then Inr (xs ! (length xs - nat (- i)))
            else Inl IndexError))"

function coming_up :: "int \<Rightarrow> 'pos cursor \<Rightarrow> ('pos error + 'pos token) \<times> 'pos cursor" where
  "coming_up n c =
     (if int (length (coming_up_stack c)) < n
      then (case iterator c of
              [] \<Rightarrow> (Inl EOFError, c)
            | t # ts \<Rightarrow> coming_up n (c\<lparr>iterator := ts, coming_up_stack := t # coming_up_stack c\<rparr>))
      else (deque_index (coming_up_stack c) (- n), c))"
  by pat_completeness auto
termination
  by (relation "measure (\<lambda>(n, c). length (iterator c))") auto

declare coming_up.simps [simp del]

definition something_coming_up :: "'pos cursor \<Rightarrow> bool \<times> 'pos cursor" where
  "something_coming_up c =
     (if coming_up_stack c = []
      then (case iterator c of
              [] \<Rightarrow> (False, c)
            | t # ts \<Rightarrow> (True, c\<lparr>iterator := ts, coming_up_stack := t # coming_up_stack c\<rparr>))
      else (True, c))"

text \<open>
  \<^verbatim>\<open>check_and_pop(kind, value=None)\<close>. Each \<^verbatim>\<open>self.coming_up()\<close> of the source is a call
  here, the ones that compute the assertion messages included.
\<close>

definition check_and_pop ::
  "string \<Rightarrow> string option \<Rightarrow> 'pos cursor \<Rightarrow> ('pos error + 'pos token) \<times> 'pos cursor" where
  "check_and_pop kind val =
     and_then (coming_up 1) (\<lambda>t.
       if token_kind t \<noteq> kind
       then and_then (coming_up 1) (\<lambda>m. raise (AssertionError_token m))
       else (case val of
               None \<Rightarrow> pop
             | Some v \<Rightarrow>
                 and_then (coming_up 1) (\<lambda>t'.
                   if token_value t' \<noteq> v
                   then and_then (coming_up 1) (\<lambda>m. raise (AssertionError_token m))
                   else pop)))"

subsection \<open>The nodes of the syntax tree\<close>

text \<open>
  One constructor for each class made by \<^verbatim>\<open>_nodetype\<close>, with the fields in the order of the
  source; the last two arguments are \<^verbatim>\<open>start\<close> and \<^verbatim>\<open>end\<close>, which the parser always
  passes. The arguments of a \<^verbatim>\<open>FunctionDef\<close> are the pairs \<^verbatim>\<open>_type_and_name\<close> returns. The
  class \<^verbatim>\<open>If\<close> is the constructor \<open>If_node\<close>.
\<close>

datatype 'pos node =
    Name string 'pos 'pos
  | Integer int 'pos 'pos
  | String string 'pos 'pos
  | FunctionCall "'pos node" "'pos node list" 'pos 'pos
  | ExpressionStatement "'pos node" 'pos 'pos
  | Declaration "'pos node" string "'pos node option" 'pos 'pos
  | Assignment "'pos node" "'pos node" 'pos 'pos
  | If_node "'pos node" "'pos node list" 'pos 'pos
  | FunctionDef string "('pos node \<times> string) list" "'pos node option" "'pos node list" 'pos 'pos
  | Return "'pos node" 'pos 'pos
  | DecRef string 'pos 'pos

fun node_start :: "'pos node \<Rightarrow> 'pos" where
  "node_start (Name _ s _) = s"
| "node_start (Integer _ s _) = s"
| "node_start (String _ s _) = s"
| "node_start (FunctionCall _ _ s _) = s"
| "node_start (ExpressionStatement _ s _) = s"
| "node_start (Declaration _ _ _ s _) = s"
| "node_start (Assignment _ _ s _) = s"
| "node_start (If_node _ _ s _) = s"
| "node_start (FunctionDef _ _ _ _ s _) = s"
| "node_start (Return _ s _) = s"
| "node_start (DecRef _ s _) = s"

fun node_end :: "'pos node \<Rightarrow> 'pos" where
  "node_end (Name _ _ e) = e"
| "node_end (Integer _ _ e) = e"
| "node_end (String _ _ e) = e"
| "node_end (FunctionCall _ _ _ e) = e"
| "node_end (ExpressionStatement _ _ e) = e"
| "node_end (Declaration _ _ _ _ e) = e"
| "node_end (Assignment _ _ _ e) = e"
| "node_end (If_node _ _ _ e) = e"
| "node_end (FunctionDef _ _ _ _ _ e) = e"
| "node_end (Return _ _ e) = e"
| "node_end (DecRef _ _ e) = e"

text \<open>The \<^verbatim>\<open>name\<close> attribute, which \<^verbatim>\<open>_type_and_name\<close> and \<^verbatim>\<open>parse_function_def\<close> read from a
  \<^verbatim>\<open>Name\<close> node; other classes have no such attribute apart from \<^verbatim>\<open>FunctionDef\<close> and
  \<^verbatim>\<open>DecRef\<close>.\<close>

fun node_name :: "'pos node \<Rightarrow> string option" where
  "node_name (Name n _ _) = Some n"
| "node_name (FunctionDef n _ _ _ _ _) = Some n"
| "node_name (DecRef n _ _) = Some n"
| "node_name _ = None"

subsection \<open>Python's \<^verbatim>\<open>int\<close> and slicing on strings\<close>

text \<open>
  \<^verbatim>\<open>int(s)\<close> in base 10: surrounding whitespace is stripped, a sign may follow, then
  come decimal digits, where single underscores may stand between digits. Anything else
  raises \<^verbatim>\<open>ValueError\<close>. The length limit of recent interpreters on the number of digits
  is not modelled.
\<close>

definition py_isspace :: "char \<Rightarrow> bool" where
  "py_isspace ch = ((of_char ch :: nat) \<in> {9, 10, 11, 12, 13, 32, 133, 160})"

definition py_strip :: "string \<Rightarrow> string" where
  "py_strip s = rev (dropWhile py_isspace (rev (dropWhile py_isspace s)))"

definition py_isdigit :: "char \<Rightarrow> bool" where
  "py_isdigit ch = (48 \<le> (of_char ch :: nat) \<and> (of_char ch :: nat) \<le> 57)"

definition digit_value :: "char \<Rightarrow> int" where
  "digit_value ch = int (of_char ch) - 48"

fun py_digits :: "int \<Rightarrow> string \<Rightarrow> int option" where
  "py_digits acc [] = Some acc"
| "py_digits acc [ch] =
     (if py_isdigit ch then Some (10 * acc + digit_value ch) else None)"
| "py_digits acc (ch # d # cs) =
     (if ch = CHR ''_''
      then (if py_isdigit d then py_digits (10 * acc + digit_value d) cs else None)
      else if py_isdigit ch then py_digits (10 * acc + digit_value ch) (d # cs)
      else None)"

definition py_unsigned :: "string \<Rightarrow> int option" where
  "py_unsigned s =
     (case s of
        [] \<Rightarrow> None
      | d # ds \<Rightarrow> if py_isdigit d then py_digits (digit_value d) ds else None)"

definition py_int :: "string \<Rightarrow> int option" where
  "py_int s =
     (case py_strip s of
        [] \<Rightarrow> None
      | ch # cs \<Rightarrow>
          if ch = CHR ''+'' then py_unsigned cs
          else if ch = CHR ''-'' then map_option uminus (py_unsigned cs)
          else py_unsigned (ch # cs))"

text \<open>\<^verbatim>\<open>s[1:-1]\<close>: the string without its first and last character, empty when it has
  fewer than three.\<close>

definition slice_1_m1 :: "string \<Rightarrow> string" where
  "slice_1_m1 s = butlast (tl s)"

subsection \<open>The parser \<^verbatim>\<open>_Parser\<close>: names, literals and lists\<close>

definition KEYWORDS :: "string set" where
  "KEYWORDS = {''return'', ''if''}"

definition parse_name ::
  "bool \<Rightarrow> 'pos cursor \<Rightarrow> ('pos error + 'pos node) \<times> 'pos cursor" where
  "parse_name check_for_keywords =
     and_then (check_and_pop ''NAME'' None) (\<lambda>token.
       if check_for_keywords \<and> token_value token \<in> KEYWORDS
       then raise (AssertionError_keyword (token_value token))
       else return_value (Name (token_value token) (token_start token) (token_end token)))"

definition parse_integer :: "'pos cursor \<Rightarrow> ('pos error + 'pos node) \<times> 'pos cursor" where
  "parse_integer =
     and_then (check_and_pop ''INTEGER'' None) (\<lambda>token.
       case py_int (token_value token) of
         None \<Rightarrow> raise (ValueError_int (token_value token))
       | Some i \<Rightarrow> return_value (Integer i (token_start token) (token_end token)))"

definition parse_string :: "'pos cursor \<Rightarrow> ('pos error + 'pos node) \<times> 'pos cursor" where
  "parse_string =
     and_then (check_and_pop ''STRING'' None) (\<lambda>token.
       return_value (String (slice_1_m1 (token_value token)) (token_start token) (token_end token)))"

text \<open>
  \<^verbatim>\<open>_parse_comma_list(stop, parsemethod)\<close>. The \<^verbatim>\<open>while True\<close> loop of the non-empty case is
  \<open>comma_list_loop\<close>; \<open>elements\<close> is the list built so far. The first argument bounds the
  number of iterations.
\<close>

fun comma_list_loop ::
  "nat \<Rightarrow> string \<Rightarrow> ('pos cursor \<Rightarrow> ('pos error + 'a) \<times> 'pos cursor) \<Rightarrow> 'a list
    \<Rightarrow> 'pos cursor \<Rightarrow> ('pos error + 'a list \<times> 'pos token) \<times> 'pos cursor" where
  "comma_list_loop 0 stop parsemethod elements = raise OutOfFuel"
| "comma_list_loop (Suc n) stop parsemethod elements =
     and_then parsemethod (\<lambda>element.
     and_then (coming_up 1) (\<lambda>t.
       if info t = (''OP'', stop)
       then and_then pop (\<lambda>last_token. return_value (elements @ [element], last_token))
       else
         and_then (check_and_pop ''OP'' (Some '','')) (\<lambda>_.
         and_then (coming_up 1) (\<lambda>t'.
           if info t' = (''OP'', stop)
           then and_then pop (\<lambda>last_token. return_value (elements @ [element], last_token))
           else comma_list_loop n stop parsemethod (elements @ [element])))))"

definition parse_comma_list ::
  "nat \<Rightarrow> string \<Rightarrow> ('pos cursor \<Rightarrow> ('pos error + 'a) \<times> 'pos cursor)
    \<Rightarrow> 'pos cursor \<Rightarrow> ('pos error + 'a list \<times> 'pos token) \<times> 'pos cursor" where
  "parse_comma_list n stop parsemethod =
     and_then (coming_up 1) (\<lambda>t.
       if info t = (''OP'', stop)
       then and_then pop (\<lambda>last_token. return_value ([], last_token))
       else comma_list_loop n stop parsemethod [])"

subsection \<open>Expressions\<close>

text \<open>
  \<^verbatim>\<open>parse_expression\<close> parses a name, a string or an integer and then runs the loop
  ``check for function calls'', which is \<open>parse_expression_loop\<close> with the expression
  parsed so far as \<open>result\<close>. The first argument of both bounds the depth of calls and the
  number of iterations that remain.
\<close>

fun parse_expression ::
    "nat \<Rightarrow> 'pos cursor \<Rightarrow> ('pos error + 'pos node) \<times> 'pos cursor"
  and parse_expression_loop ::
    "nat \<Rightarrow> 'pos node \<Rightarrow> 'pos cursor \<Rightarrow> ('pos error + 'pos node) \<times> 'pos cursor" where
  "parse_expression 0 = raise OutOfFuel"
| "parse_expression (Suc n) =
     and_then (coming_up 1) (\<lambda>coming_up_token.
     and_then
       (if token_kind coming_up_token = ''NAME'' then parse_name True
        else if token_kind coming_up_token = ''STRING'' then parse_string
        else if token_kind coming_up_token = ''INTEGER'' then parse_integer
        else raise (ValueError_invalid_token coming_up_token))
       (\<lambda>result. parse_expression_loop n result))"
| "parse_expression_loop 0 result = raise OutOfFuel"
| "parse_expression_loop (Suc n) result =
     and_then (coming_up 1) (\<lambda>next_token.
       if token_kind next_token \<noteq> ''OP'' \<or> token_value next_token \<noteq> ''(''
       then return_value result
       else
         and_then (check_and_pop ''OP'' (Some ''('')) (\<lambda>openparen.
         and_then (parse_comma_list n '')'' (\<lambda>c. parse_expression n c)) (\<lambda>(arguments, last_token).
           parse_expression_loop n
             (FunctionCall result arguments (node_start result) (token_end last_token)))))"

subsection \<open>Statements\<close>

definition parse_expression_statement ::
  "nat \<Rightarrow> 'pos cursor \<Rightarrow> ('pos error + 'pos node) \<times> 'pos cursor" where
  "parse_expression_statement n =
     and_then (parse_expression n) (\<lambda>val.
     and_then (check_and_pop ''OP'' (Some '';'')) (\<lambda>semicolon.
       return_value (ExpressionStatement val (node_start val) (token_end semicolon))))"

definition assignment ::
  "nat \<Rightarrow> 'pos cursor \<Rightarrow> ('pos error + 'pos node) \<times> 'pos cursor" where
  "assignment n =
     and_then (parse_name True) (\<lambda>variable.
     and_then (check_and_pop ''OP'' (Some ''='')) (\<lambda>_.
     and_then (parse_expression n) (\<lambda>val.
     and_then (check_and_pop ''OP'' (Some '';'')) (\<lambda>semicolon.
       return_value (Assignment variable val (node_start variable) (token_end semicolon))))))"

text \<open>\<^verbatim>\<open>_type_and_name\<close>. Its \<^verbatim>\<open>print(name)\<close> writes to the standard output and touches
  neither the cursor nor the result; the output stream is not part of the model.\<close>

definition type_and_name ::
  "'pos cursor \<Rightarrow> ('pos error + 'pos node \<times> string) \<times> 'pos cursor" where
  "type_and_name =
     and_then (parse_name True) (\<lambda>typenode.
     and_then (parse_name True) (\<lambda>name.
       case node_name name of
         None \<Rightarrow> raise AttributeError
       | Some s \<Rightarrow> return_value (typenode, s)))"

text \<open>\<^verbatim>\<open>parse_declaration\<close>. The source binds \<^verbatim>\<open>semicolon\<close> in both branches and builds the
  node with \<^verbatim>\<open>end=third_thing.end\<close>.\<close>

definition parse_declaration ::
  "nat \<Rightarrow> 'pos cursor \<Rightarrow> ('pos error + 'pos node) \<times> 'pos cursor" where
  "parse_declaration n =
     and_then type_and_name (\<lambda>(datatype, variable_name).
     and_then (check_and_pop ''OP'' None) (\<lambda>third_thing.
     and_then
       (if token_value third_thing = '';''
        then return_value (third_thing, None)
        else
          and_then (parse_expression n) (\<lambda>initial_value.
          and_then (check_and_pop ''OP'' (Some '';'')) (\<lambda>semicolon.
            return_value (semicolon, Some initial_value))))
       (\<lambda>(semicolon, initial_value).
          return_value
            (Declaration datatype variable_name initial_value
               (node_start datatype) (token_end third_thing)))))"

definition parse_return ::
  "nat \<Rightarrow> 'pos cursor \<Rightarrow> ('pos error + 'pos node) \<times> 'pos cursor" where
  "parse_return n =
     and_then (check_and_pop ''NAME'' (Some ''return'')) (\<lambda>the_return.
     and_then (parse_expression n) (\<lambda>val.
     and_then (check_and_pop ''OP'' (Some '';'')) (\<lambda>semicolon.
       return_value (Return val (token_start the_return) (token_end semicolon)))))"

text \<open>
  \<^verbatim>\<open>parse_statement\<close>, \<^verbatim>\<open>parse_if\<close> and \<^verbatim>\<open>parse_function_def\<close> call each other. The \<^verbatim>\<open>while\<close>
  loops that collect the body of an \<^verbatim>\<open>if\<close> and of a function are \<open>parse_if_loop\<close> and
  \<open>parse_function_def_loop\<close>, with the list \<open>body\<close> built so far.
\<close>

fun parse_statement ::
    "nat \<Rightarrow> 'pos cursor \<Rightarrow> ('pos error + 'pos node) \<times> 'pos cursor"
  and parse_if ::
    "nat \<Rightarrow> 'pos cursor \<Rightarrow> ('pos error + 'pos node) \<times> 'pos cursor"
  and parse_if_loop ::
    "nat \<Rightarrow> 'pos node list \<Rightarrow> 'pos cursor \<Rightarrow> ('pos error + 'pos node list) \<times> 'pos cursor"
  and parse_function_def ::
    "nat \<Rightarrow> 'pos cursor \<Rightarrow> ('pos error + 'pos node) \<times> 'pos cursor"
  and parse_function_def_loop ::
    "nat \<Rightarrow> 'pos node list \<Rightarrow> 'pos cursor \<Rightarrow> ('pos error + 'pos node list) \<times> 'pos cursor" where
  "parse_statement 0 = raise OutOfFuel"
| "parse_statement (Suc n) =
     and_then (coming_up 1) (\<lambda>t1.
       if token_kind t1 = ''NAME''
       then
         and_then (coming_up 1) (\<lambda>t2.
           if token_value t2 = ''return'' then parse_return n
           else
             and_then (coming_up 1) (\<lambda>t3.
               if token_value t3 = ''if'' then parse_if n
               else
                 and_then (coming_up 1) (\<lambda>t4.
                   if token_value t4 = ''function'' then parse_function_def n
                   else
                     and_then (coming_up 2) (\<lambda>after_name.
                       if info after_name = (''OP'', ''='') then assignment n
                       else if token_kind after_name = ''NAME'' then parse_declaration n
                       else parse_expression_statement n))))
       else parse_expression_statement n)"
| "parse_if 0 = raise OutOfFuel"
| "parse_if (Suc n) =
     and_then (check_and_pop ''NAME'' (Some ''if'')) (\<lambda>the_if.
     and_then (parse_expression n) (\<lambda>condition.
     and_then (check_and_pop ''OP'' (Some ''{'')) (\<lambda>_.
     and_then (parse_if_loop n []) (\<lambda>body.
     and_then (check_and_pop ''OP'' (Some ''}'')) (\<lambda>closing_brace.
       return_value (If_node condition body (token_start the_if) (token_end closing_brace)))))))"
| "parse_if_loop 0 body = raise OutOfFuel"
| "parse_if_loop (Suc n) body =
     and_then (coming_up 1) (\<lambda>t.
       if info t \<noteq> (''OP'', ''}'')
       then and_then (parse_statement n) (\<lambda>statement. parse_if_loop n (body @ [statement]))
       else return_value body)"
| "parse_function_def 0 = raise OutOfFuel"
| "parse_function_def (Suc n) =
     and_then (check_and_pop ''NAME'' (Some ''function'')) (\<lambda>function_keyword.
     and_then (parse_name True) (\<lambda>name.
     and_then (check_and_pop ''OP'' (Some ''('')) (\<lambda>_.
     and_then (parse_comma_list n '')'' type_and_name) (\<lambda>(arguments, junk).
     and_then (coming_up 1) (\<lambda>t.
     and_then
       (if info t = (''NAME'', ''returns'')
        then and_then pop (\<lambda>_. and_then (parse_name True) (\<lambda>returntype. return_value (Some returntype)))
        else return_value None)
       (\<lambda>returntype.
     and_then (check_and_pop ''OP'' None) (\<lambda>before_body.
     and_then (parse_function_def_loop n []) (\<lambda>body.
     and_then (check_and_pop ''OP'' (Some ''}'')) (\<lambda>closing_brace.
       case node_name name of
         None \<Rightarrow> raise AttributeError
       | Some s \<Rightarrow>
           return_value
             (FunctionDef s arguments returntype body
                (token_start function_keyword) (token_end closing_brace)))))))))))"
| "parse_function_def_loop 0 body = raise OutOfFuel"
| "parse_function_def_loop (Suc n) body =
     and_then (coming_up 1) (\<lambda>t.
       if info t \<noteq> (''OP'', ''}'')
       then and_then (parse_statement n) (\<lambda>statement. parse_function_def_loop n (body @ [statement]))
       else return_value body)"

subsection \<open>The driver\<close>

text \<open>
  \<^verbatim>\<open>parse_file\<close> is a generator. Its model returns the nodes it yields, in order, and
  the exception that ended it, if one did: \<open>None\<close> stands for the \<^verbatim>\<open>break\<close> on
  \<^verbatim>\<open>EOFError\<close>. Only the \<^verbatim>\<open>EOFError\<close> of its own \<^verbatim>\<open>coming_up(1)\<close> is caught.
\<close>

fun parse_file ::
  "nat \<Rightarrow> 'pos cursor \<Rightarrow> ('pos node list \<times> 'pos error option) \<times> 'pos cursor" where
  "parse_file 0 c = (([], Some OutOfFuel), c)"
| "parse_file (Suc n) c =
     (case coming_up 1 c of
        (Inl e, c1) \<Rightarrow> (([], if e = EOFError then None else Some e), c1)
      | (Inr _, c1) \<Rightarrow>
          (case parse_statement n c1 of
             (Inl e, c2) \<Rightarrow> (([], Some e), c2)
           | (Inr statement, c2) \<Rightarrow>
               (case parse_file n c2 of
                  ((statements, r), c3) \<Rightarrow> ((statement # statements, r), c3))))"

text \<open>\<^verbatim>\<open>parse(tokens)\<close> makes a parser, hence a fresh cursor, and runs \<^verbatim>\<open>parse_file\<close>.\<close>

definition parse ::
  "nat \<Rightarrow> 'pos token list \<Rightarrow> ('pos node list \<times> 'pos error option) \<times> 'pos cursor" where
  "parse n tokens = parse_file n (new_cursor tokens)"

section \<open>What a cursor still holds\<close>

text \<open>
  The tokens a cursor has not handed out yet are the ones in its deque, oldest first,
  followed by the ones still in the iterator. \<open>observe\<close> keeps of a method's outcome the
  result and these tokens; \<open>run p l\<close> is the outcome of the method \<open>p\<close> on a fresh cursor
  over the tokens \<open>l\<close>. A method is \<open>on_pending\<close> when its outcome on any cursor is the
  one on a fresh cursor over the same pending tokens, that is, when it cannot tell how
  many of them are already buffered.
\<close>

definition pending :: "'pos cursor \<Rightarrow> 'pos token list" where
  "pending c = rev (coming_up_stack c) @ iterator c"

definition observe :: "'r \<times> 'pos cursor \<Rightarrow> 'r \<times> 'pos token list" where
  "observe rc = (fst rc, pending (snd rc))"

definition run ::
  "('pos cursor \<Rightarrow> 'r \<times> 'pos cursor) \<Rightarrow> 'pos token list \<Rightarrow> 'r \<times> 'pos token list" where
  "run p l = observe (p (new_cursor l))"

definition on_pending :: "('pos cursor \<Rightarrow> 'r \<times> 'pos cursor) \<Rightarrow> bool" where
  "on_pending p = (\<forall>c. observe (p c) = run p (pending c))"

text \<open>One round of the driver's loop, on token lists.\<close>

definition parse_file_step ::
  "('pos token list \<Rightarrow> ('pos error + 'pos node) \<times> 'pos token list)
    \<Rightarrow> ('pos token list \<Rightarrow> ('pos node list \<times> 'pos error option) \<times> 'pos token list)
    \<Rightarrow> 'pos token list \<Rightarrow> ('pos node list \<times> 'pos error option) \<times> 'pos token list" where
  "parse_file_step statement file l =
     (case l of
        [] \<Rightarrow> (([], None), [])
      | t # ts \<Rightarrow>
          (case statement l of
             (Inl e, l') \<Rightarrow> (([], Some e), l')
           | (Inr s, l') \<Rightarrow>
               (case file l' of ((ss, r), l'') \<Rightarrow> ((s # ss, r), l''))))"

text \<open>A token written as the tuple \<^verbatim>\<open>(kind, value, start, end)\<close>.\<close>

abbreviation Token :: "string \<Rightarrow> string \<Rightarrow> 'pos \<Rightarrow> 'pos \<Rightarrow> 'pos token" where
  "Token k v s e \<equiv> \<lparr>token_kind = k, token_value = v, token_start = s, token_end = e\<rparr>"


text \<open>
  Sequences of calls on one cursor. \<open>consume\<close> runs one method and says which token
  the call handed out, if it did; \<open>interleave\<close> runs a list of calls and collects the
  tokens handed out, in order; \<open>pops k\<close> calls \<^verbatim>\<open>pop\<close> \<open>k\<close> times and lists the results.
\<close>

datatype cursor_op = Pop | Coming_up int | Something_coming_up | Check_and_pop string "string option"

fun consume :: "cursor_op \<Rightarrow> 'pos cursor \<Rightarrow> 'pos token option \<times> 'pos cursor" where
  "consume Pop c = (case pop c of (Inr t, c') \<Rightarrow> (Some t, c') | (Inl e, c') \<Rightarrow> (None, c'))"
| "consume (Coming_up n) c = (None, snd (coming_up n c))"
| "consume Something_coming_up c = (None, snd (something_coming_up c))"
| "consume (Check_and_pop kind val) c =
     (case check_and_pop kind val c of (Inr t, c') \<Rightarrow> (Some t, c') | (Inl e, c') \<Rightarrow> (None, c'))"

fun interleave :: "cursor_op list \<Rightarrow> 'pos cursor \<Rightarrow> 'pos token list \<times> 'pos cursor" where
  "interleave [] c = ([], c)"
| "interleave (x # xs) c =
     (case consume x c of
        (None, c') \<Rightarrow> interleave xs c'
      | (Some t, c') \<Rightarrow> (case interleave xs c' of (ts, c'') \<Rightarrow> (t # ts, c'')))"

fun pops :: "nat \<Rightarrow> 'pos cursor \<Rightarrow> ('pos error + 'pos token) list" where
  "pops 0 c = []"
| "pops (Suc k) c = fst (pop c) # pops k (snd (pop c))"

text \<open>
  Three notions for stating what the parser does with its input. A method \<open>q\<close> is
  \<open>p\<close> with \<open>more_fuel\<close> when it returns what \<open>p\<close> returns wherever \<open>p\<close> does not run out
  of its counter. A parser on token lists is \<open>consuming\<close> when the tokens it leaves are
  a suffix of the ones it was given. It is a \<open>local_parser\<close> for a property \<open>Q\<close> of
  tokens when its result depends only on the tokens it consumed, as long as the token
  after them has \<open>Q\<close>: what follows can be replaced.
\<close>

definition more_fuel ::
  "('s \<Rightarrow> ('pos error + 'a) \<times> 's) \<Rightarrow> ('s \<Rightarrow> ('pos error + 'a) \<times> 's) \<Rightarrow> bool" where
  "more_fuel p q = (\<forall>c. fst (p c) \<noteq> Inl OutOfFuel \<longrightarrow> q c = p c)"

definition consuming :: "('t list \<Rightarrow> ('e + 'a) \<times> 't list) \<Rightarrow> bool" where
  "consuming P = (\<forall>l x u. P l = (Inr x, u) \<longrightarrow> suffix u l)"

definition local_parser :: "('t \<Rightarrow> bool) \<Rightarrow> ('t list \<Rightarrow> ('e + 'a) \<times> 't list) \<Rightarrow> bool" where
  "local_parser Q P =
     (\<forall>pre s x s'. P (pre @ s) = (Inr x, s) \<longrightarrow> s' \<noteq> [] \<longrightarrow> Q (hd s') \<longrightarrow> P (pre @ s') = (Inr x, s'))"

definition not_open_paren :: "'pos token \<Rightarrow> bool" where
  "not_open_paren t = (info t \<noteq> (''OP'', ''(''))"

text \<open>
  A call suffix, for stating how calls nest: its opening token, the tokens after it up to
  and with the closing parenthesis, the arguments and the closing token they are parsed
  to. \<open>is_call_suffix m\<close> says that the opening token is \<^verbatim>\<open>(\<close> and that
  \<^verbatim>\<open>_parse_comma_list\<close>, with the counter \<open>m\<close>, parses the tokens to their end into these
  arguments and this closing token. \<open>call_of\<close> is the node the loop of
  \<^verbatim>\<open>parse_expression\<close> builds from a callee and a suffix.
\<close>

type_synonym 'pos call_suffix = "'pos token \<times> 'pos token list \<times> 'pos node list \<times> 'pos token"

fun suffix_tokens :: "'pos call_suffix \<Rightarrow> 'pos token list" where
  "suffix_tokens (paren, toks, arguments, last_token) = paren # toks"

fun is_call_suffix :: "nat \<Rightarrow> 'pos call_suffix \<Rightarrow> bool" where
  "is_call_suffix m (paren, toks, arguments, last_token) =
     (info paren = (''OP'', ''('')
      \<and> run (parse_comma_list m '')'' (parse_expression m)) toks = (Inr (arguments, last_token), []))"

fun call_of :: "'pos node \<Rightarrow> 'pos call_suffix \<Rightarrow> 'pos node" where
  "call_of callee (paren, toks, arguments, last_token) =
     FunctionCall callee arguments (node_start callee) (token_end last_token)"

text \<open>
  Two notions for showing that the counter is a device of this model and not a limit of
  the parser. A method \<open>eats d\<close> when, wherever it returns, it has consumed at least \<open>d\<close>
  of the pending tokens. It has \<open>enough_fuel k\<close> when it does not run out of its counter on
  a cursor with fewer than \<open>k\<close> pending tokens.
\<close>

definition enough_fuel ::
  "nat \<Rightarrow> ('pos cursor \<Rightarrow> ('pos error + 'a) \<times> 'pos cursor) \<Rightarrow> bool" where
  "enough_fuel k p = (\<forall>c. length (pending c) < k \<longrightarrow> fst (p c) \<noteq> Inl OutOfFuel)"

definition eats ::
  "nat \<Rightarrow> ('pos cursor \<Rightarrow> ('pos error + 'a) \<times> 'pos cursor) \<Rightarrow> bool" where
  "eats d p = (\<forall>c x c'. p c = (Inr x, c') \<longrightarrow> length (pending c') + d \<le> length (pending c))"

section \<open>The cursor and the parser on pending tokens\<close>

lemma pending_new_cursor [simp]: "pending (new_cursor l) = l"
  by (simp add: pending_def new_cursor_def)

lemma coming_up_pending: "pending (snd (coming_up n c)) = pending c"
proof (induction n c rule: coming_up.induct)
  case (1 n c)
  show ?case
  proof (cases "int (length (coming_up_stack c)) < n")
    case False
    then show ?thesis by (simp add: coming_up.simps [of n c])
  next
    case True
    show ?thesis
    proof (cases "iterator c")
      case Nil
      with True show ?thesis by (simp add: coming_up.simps [of n c])
    next
      case (Cons t ts)
      with True 1 show ?thesis
        by (simp add: coming_up.simps [of n c] pending_def)
    qed
  qed
qed

lemma deque_index_right:
  assumes "1 \<le> n" "nat n \<le> length xs"
  shows "deque_index xs (- n) = Inr (rev xs ! (nat n - 1))"
proof -
  have "nat n - 1 < length xs" using assms by linarith
  then have "rev xs ! (nat n - 1) = xs ! (length xs - Suc (nat n - 1))"
    by (rule rev_nth)
  moreover have "length xs - Suc (nat n - 1) = length xs - nat n"
    using assms by linarith
  moreover have "n \<le> int (length xs)" using assms by linarith
  ultimately show ?thesis
    using assms by (simp add: deque_index_def)
qed

lemma coming_up_result:
  "1 \<le> n \<Longrightarrow> fst (coming_up n c) =
     (if nat n \<le> length (pending c) then Inr (pending c ! (nat n - 1)) else Inl EOFError)"
proof (induction n c rule: coming_up.induct)
  case (1 n c)
  show ?case
  proof (cases "int (length (coming_up_stack c)) < n")
    case False
    then have le: "nat n \<le> length (coming_up_stack c)" by linarith
    then have "nat n - 1 < length (rev (coming_up_stack c))" using 1(2) by simp
    then have "pending c ! (nat n - 1) = rev (coming_up_stack c) ! (nat n - 1)"
      by (simp add: pending_def nth_append)
    with False le 1(2) show ?thesis
      by (simp add: coming_up.simps [of n c] deque_index_right pending_def)
  next
    case True
    show ?thesis
    proof (cases "iterator c")
      case Nil
      with True show ?thesis by (simp add: coming_up.simps [of n c] pending_def)
    next
      case (Cons t ts)
      with True 1 show ?thesis
        by (simp add: coming_up.simps [of n c] pending_def)
    qed
  qed
qed

lemma pop_result:
  "fst (pop c) = (case pending c of [] \<Rightarrow> Inl StopIteration | t # ts \<Rightarrow> Inr t)"
  by (cases "coming_up_stack c" rule: rev_cases; cases "iterator c")
     (simp_all add: pop_def pending_def)

lemma pop_pending: "pending (snd (pop c)) = tl (pending c)"
  by (cases "coming_up_stack c" rule: rev_cases; cases "iterator c")
     (simp_all add: pop_def pending_def)

lemma something_coming_up_result: "fst (something_coming_up c) = (pending c \<noteq> [])"
  by (cases "coming_up_stack c"; cases "iterator c") (simp_all add: something_coming_up_def pending_def)

lemma something_coming_up_pending: "pending (snd (something_coming_up c)) = pending c"
  by (cases "coming_up_stack c"; cases "iterator c") (simp_all add: something_coming_up_def pending_def)

named_theorems on_pending_intros

lemma observe_eq: "observe (r, c) = (r, pending c)"
  by (simp add: observe_def)

lemma on_pendingD: "on_pending p \<Longrightarrow> observe (p c) = run p (pending c)"
  by (simp add: on_pending_def)

lemma on_pendingI: "(\<And>c. observe (p c) = f (pending c)) \<Longrightarrow> on_pending p"
  by (simp add: on_pending_def run_def)

lemma run_eqI: "(\<And>c. observe (p c) = f (pending c)) \<Longrightarrow> run p = f"
  by (rule ext) (simp add: run_def)

lemma observe_coming_up:
  "1 \<le> n \<Longrightarrow> observe (coming_up n c) =
     (if nat n \<le> length (pending c) then Inr (pending c ! (nat n - 1)) else Inl EOFError, pending c)"
  by (simp add: observe_def coming_up_result coming_up_pending)

lemma on_pending_coming_up [on_pending_intros]: "1 \<le> n \<Longrightarrow> on_pending (coming_up n)"
  by (rule on_pendingI [where f = "\<lambda>l. (if nat n \<le> length l then Inr (l ! (nat n - 1)) else Inl EOFError, l)"])
     (simp add: observe_coming_up)

lemma run_coming_up:
  "1 \<le> n \<Longrightarrow> run (coming_up n) l =
     (if nat n \<le> length l then Inr (l ! (nat n - 1)) else Inl EOFError, l)"
  by (simp add: run_def observe_coming_up)

lemma run_coming_up_1:
  "run (coming_up 1) l = (case l of [] \<Rightarrow> (Inl EOFError, []) | t # ts \<Rightarrow> (Inr t, l))"
  by (cases l) (simp_all add: run_coming_up)

lemma run_coming_up_2:
  "run (coming_up 2) l =
     (case l of t # t' # ts \<Rightarrow> (Inr t', l) | _ \<Rightarrow> (Inl EOFError, l))"
  by (cases l; cases "tl l") (auto simp add: run_coming_up)

lemma observe_pop:
  "observe (pop c) =
     (case pending c of [] \<Rightarrow> (Inl StopIteration, []) | t # ts \<Rightarrow> (Inr t, ts))"
  by (cases "pending c") (simp_all add: observe_def pop_result pop_pending)

lemma on_pending_pop [on_pending_intros]: "on_pending pop"
  by (rule on_pendingI) (rule observe_pop)

lemma run_pop:
  "run pop l = (case l of [] \<Rightarrow> (Inl StopIteration, []) | t # ts \<Rightarrow> (Inr t, ts))"
  by (simp add: run_def observe_pop)

lemma on_pending_return_value [on_pending_intros]: "on_pending (return_value x)"
  by (simp add: on_pending_def run_def observe_def return_value_def)

lemma on_pending_raise [on_pending_intros]: "on_pending (raise e)"
  by (simp add: on_pending_def run_def observe_def raise_def)

lemma run_return_value: "run (return_value x) l = (Inr x, l)"
  by (simp add: run_def observe_def return_value_def)

lemma run_raise: "run (raise e) l = (Inl e, l)"
  by (simp add: run_def observe_def raise_def)

lemma observe_and_then:
  assumes "\<And>x. on_pending (f x)"
  shows "observe (and_then m f c) =
     (case observe (m c) of (Inl e, l) \<Rightarrow> (Inl e, l) | (Inr x, l) \<Rightarrow> run (f x) l)"
proof (cases "m c")
  case (Pair r c')
  show ?thesis
  proof (cases r)
    case (Inl e)
    with Pair show ?thesis by (simp add: and_then_def observe_def)
  next
    case (Inr x)
    have "observe (f x c') = run (f x) (pending c')"
      using assms by (rule on_pendingD)
    with Pair Inr show ?thesis by (simp add: and_then_def observe_eq)
  qed
qed

lemma run_and_then:
  "(\<And>x. on_pending (f x)) \<Longrightarrow> run (and_then m f) l = and_then (run m) (\<lambda>x. run (f x)) l"
  by (simp add: run_def [of "and_then m f"] observe_and_then) (simp add: and_then_def run_def)

lemma on_pending_and_then [on_pending_intros]:
  assumes "on_pending m" "\<And>x. on_pending (f x)"
  shows "on_pending (and_then m f)"
  unfolding on_pending_def
proof
  fix c
  have "observe (m c) = run m (pending c)" using assms(1) by (rule on_pendingD)
  then show "observe (and_then m f c) = run (and_then m f) (pending c)"
    using assms(2) by (simp add: observe_and_then run_and_then) (simp add: and_then_def)
qed

lemma on_pending_if [on_pending_intros]:
  "(b \<Longrightarrow> on_pending p) \<Longrightarrow> (\<not> b \<Longrightarrow> on_pending q) \<Longrightarrow> on_pending (if b then p else q)"
  by simp

lemma on_pending_case_option [on_pending_intros]:
  "(v = None \<Longrightarrow> on_pending p) \<Longrightarrow> (\<And>x. v = Some x \<Longrightarrow> on_pending (q x))
    \<Longrightarrow> on_pending (case v of None \<Rightarrow> p | Some x \<Rightarrow> q x)"
  by (cases v) simp_all

lemma on_pending_case_prod [on_pending_intros]:
  "(\<And>a b. on_pending (f a b)) \<Longrightarrow> on_pending (case x of (a, b) \<Rightarrow> f a b)"
  by (cases x) simp

lemma on_pending_check_and_pop [on_pending_intros]: "on_pending (check_and_pop kind val)"
  unfolding check_and_pop_def by (intro on_pending_intros) simp_all

lemma run_check_and_pop:
  "run (check_and_pop kind val) l =
     (case l of
        [] \<Rightarrow> (Inl EOFError, [])
      | t # ts \<Rightarrow>
          if token_kind t \<noteq> kind then (Inl (AssertionError_token t), l)
          else (case val of
                  None \<Rightarrow> (Inr t, ts)
                | Some v \<Rightarrow>
                    if token_value t \<noteq> v then (Inl (AssertionError_token t), l)
                    else (Inr t, ts)))"
  unfolding check_and_pop_def
  by (cases l; cases val)
     (simp_all add: run_and_then on_pending_intros and_then_def run_coming_up_1 run_raise run_pop)

lemma fst_on_pending: "on_pending p \<Longrightarrow> fst (p c) = fst (run p (pending c))"
  by (drule on_pendingD [of p c]) (simp add: observe_def prod_eq_iff)

lemma pending_on_pending: "on_pending p \<Longrightarrow> pending (snd (p c)) = snd (run p (pending c))"
  by (drule on_pendingD [of p c]) (simp add: observe_def prod_eq_iff)

lemma run_if: "run (if b then p else q) l = (if b then run p l else run q l)"
  by simp

lemma run_case_option:
  "run (case v of None \<Rightarrow> p | Some x \<Rightarrow> q x) l = (case v of None \<Rightarrow> run p l | Some x \<Rightarrow> run (q x) l)"
  by (cases v) simp_all

lemma run_case_prod:
  "run (case x of (a, b) \<Rightarrow> f a b) l = (case x of (a, b) \<Rightarrow> run (f a b) l)"
  by (cases x) simp

lemma on_pending_parse_name [on_pending_intros]: "on_pending (parse_name b)"
  unfolding parse_name_def by (intro on_pending_intros)

lemma on_pending_parse_integer [on_pending_intros]: "on_pending parse_integer"
  unfolding parse_integer_def by (intro on_pending_intros)

lemma on_pending_parse_string [on_pending_intros]: "on_pending parse_string"
  unfolding parse_string_def by (intro on_pending_intros)

lemma on_pending_type_and_name [on_pending_intros]: "on_pending type_and_name"
  unfolding type_and_name_def by (intro on_pending_intros)

lemma on_pending_comma_list_loop [on_pending_intros]:
  "on_pending parsemethod \<Longrightarrow> on_pending (comma_list_loop n stop parsemethod elements)"
proof (induction n arbitrary: elements)
  case 0
  show ?case by (simp add: on_pending_intros)
next
  case (Suc n)
  show ?case
    unfolding comma_list_loop.simps
    by (intro on_pending_intros Suc) simp_all
qed

lemma on_pending_parse_comma_list [on_pending_intros]:
  "on_pending parsemethod \<Longrightarrow> on_pending (parse_comma_list n stop parsemethod)"
  unfolding parse_comma_list_def by (intro on_pending_intros) simp_all

lemma on_pending_expression:
  "on_pending (parse_expression n :: 'pos cursor \<Rightarrow> _)
    \<and> (\<forall>result :: 'pos node. on_pending (parse_expression_loop n result))"
proof (induction n)
  case 0
  show ?case by (simp add: on_pending_intros)
next
  case (Suc n)
  from Suc have e: "on_pending (\<lambda>c :: 'pos cursor. parse_expression n c)" by blast
  from Suc have l: "\<And>result :: 'pos node. on_pending (parse_expression_loop n result)" by blast
  have "on_pending (parse_expression (Suc n) :: 'pos cursor \<Rightarrow> _)"
    unfolding parse_expression.simps by (intro on_pending_intros l) simp_all
  moreover have "on_pending (parse_expression_loop (Suc n) result)" for result :: "'pos node"
    unfolding parse_expression_loop.simps by (intro on_pending_intros l e) simp_all
  ultimately show ?case by simp
qed

lemma on_pending_parse_expression [on_pending_intros]: "on_pending (parse_expression n)"
  using on_pending_expression by blast

lemma on_pending_parse_expression_loop [on_pending_intros]:
  "on_pending (parse_expression_loop n result)"
  using on_pending_expression by blast

lemma on_pending_parse_expression_statement [on_pending_intros]:
  "on_pending (parse_expression_statement n)"
  unfolding parse_expression_statement_def by (intro on_pending_intros)

lemma on_pending_assignment [on_pending_intros]: "on_pending (assignment n)"
  unfolding assignment_def by (intro on_pending_intros)

lemma on_pending_parse_declaration [on_pending_intros]: "on_pending (parse_declaration n)"
  unfolding parse_declaration_def by (intro on_pending_intros)

lemma on_pending_parse_return [on_pending_intros]: "on_pending (parse_return n)"
  unfolding parse_return_def by (intro on_pending_intros)

lemma on_pending_statement:
  "on_pending (parse_statement n :: 'pos cursor \<Rightarrow> _)
    \<and> on_pending (parse_if n :: 'pos cursor \<Rightarrow> _)
    \<and> (\<forall>body :: 'pos node list. on_pending (parse_if_loop n body))
    \<and> on_pending (parse_function_def n :: 'pos cursor \<Rightarrow> _)
    \<and> (\<forall>body :: 'pos node list. on_pending (parse_function_def_loop n body))"
proof (induction n)
  case 0
  show ?case by (simp add: on_pending_intros)
next
  case (Suc n)
  from Suc have ih: "on_pending (parse_statement n :: 'pos cursor \<Rightarrow> _)"
    "on_pending (parse_if n :: 'pos cursor \<Rightarrow> _)"
    "\<And>body :: 'pos node list. on_pending (parse_if_loop n body)"
    "on_pending (parse_function_def n :: 'pos cursor \<Rightarrow> _)"
    "\<And>body :: 'pos node list. on_pending (parse_function_def_loop n body)" by blast+
  have "on_pending (parse_statement (Suc n) :: 'pos cursor \<Rightarrow> _)"
    unfolding parse_statement.simps by (intro on_pending_intros ih) simp_all
  moreover have "on_pending (parse_if (Suc n) :: 'pos cursor \<Rightarrow> _)"
    unfolding parse_if.simps by (intro on_pending_intros ih)
  moreover have "on_pending (parse_if_loop (Suc n) body)" for body :: "'pos node list"
    unfolding parse_if_loop.simps by (intro on_pending_intros ih) simp_all
  moreover have "on_pending (parse_function_def (Suc n) :: 'pos cursor \<Rightarrow> _)"
    unfolding parse_function_def.simps by (intro on_pending_intros ih) simp_all
  moreover have "on_pending (parse_function_def_loop (Suc n) body)" for body :: "'pos node list"
    unfolding parse_function_def_loop.simps by (intro on_pending_intros ih) simp_all
  ultimately show ?case by simp
qed

lemma on_pending_parse_statement [on_pending_intros]: "on_pending (parse_statement n)"
  using on_pending_statement by blast

lemma on_pending_parse_if [on_pending_intros]: "on_pending (parse_if n)"
  using on_pending_statement by blast

lemma on_pending_parse_if_loop [on_pending_intros]: "on_pending (parse_if_loop n body)"
  using on_pending_statement by blast

lemma on_pending_parse_function_def [on_pending_intros]: "on_pending (parse_function_def n)"
  using on_pending_statement by blast

lemma on_pending_parse_function_def_loop [on_pending_intros]:
  "on_pending (parse_function_def_loop n body)"
  using on_pending_statement by blast

lemma run_parse_name:
  "run (parse_name b) l =
     (case l of
        [] \<Rightarrow> (Inl EOFError, [])
      | t # ts \<Rightarrow>
          if token_kind t \<noteq> ''NAME'' then (Inl (AssertionError_token t), l)
          else if b \<and> token_value t \<in> KEYWORDS then (Inl (AssertionError_keyword (token_value t)), ts)
          else (Inr (Name (token_value t) (token_start t) (token_end t)), ts))"
  unfolding parse_name_def
  by (cases l)
     (simp_all add: run_and_then on_pending_intros and_then_def run_check_and_pop run_raise
        run_return_value)

lemma run_parse_string:
  "run parse_string l =
     (case l of
        [] \<Rightarrow> (Inl EOFError, [])
      | t # ts \<Rightarrow>
          if token_kind t \<noteq> ''STRING'' then (Inl (AssertionError_token t), l)
          else (Inr (String (slice_1_m1 (token_value t)) (token_start t) (token_end t)), ts))"
  unfolding parse_string_def
  by (cases l)
     (simp_all add: run_and_then on_pending_intros and_then_def run_check_and_pop
        run_return_value)

lemma run_parse_integer:
  "run parse_integer l =
     (case l of
        [] \<Rightarrow> (Inl EOFError, [])
      | t # ts \<Rightarrow>
          if token_kind t \<noteq> ''INTEGER'' then (Inl (AssertionError_token t), l)
          else (case py_int (token_value t) of
                  None \<Rightarrow> (Inl (ValueError_int (token_value t)), ts)
                | Some i \<Rightarrow> (Inr (Integer i (token_start t) (token_end t)), ts)))"
  unfolding parse_integer_def
  by (cases l)
     (simp_all add: run_and_then on_pending_intros and_then_def run_check_and_pop
        run_return_value run_raise run_case_option split: option.split)

lemmas run_simps = run_and_then run_if run_case_option run_case_prod run_raise run_return_value
  run_coming_up_1 run_coming_up_2 run_pop run_check_and_pop run_parse_name run_parse_string
  run_parse_integer and_then_def


lemma coming_up_1_cases:
  obtains (eof) c1 where "pending c = []" "coming_up 1 c = (Inl EOFError, c1)" "pending c1 = []"
  | (tok) t ts c1 where "pending c = t # ts" "coming_up 1 c = (Inr t, c1)" "pending c1 = t # ts"
proof (cases "pending c")
  case Nil
  have "observe (coming_up 1 c) = (Inl EOFError, [])"
    using Nil by (simp add: observe_coming_up)
  then have "coming_up 1 c = (Inl EOFError, snd (coming_up 1 c))" "pending (snd (coming_up 1 c)) = []"
    by (simp_all add: observe_def prod_eq_iff)
  with Nil show ?thesis by (rule eof)
next
  case (Cons t ts)
  have "observe (coming_up 1 c) = (Inr t, t # ts)"
    using Cons by (simp add: observe_coming_up)
  then have "coming_up 1 c = (Inr t, snd (coming_up 1 c))" "pending (snd (coming_up 1 c)) = t # ts"
    by (simp_all add: observe_def prod_eq_iff)
  with Cons show ?thesis by (rule tok)
qed

lemma observe_parse_file_Suc:
  assumes "on_pending (parse_file n :: 'pos cursor \<Rightarrow> _)"
  shows "observe (parse_file (Suc n) (c :: 'pos cursor)) =
     parse_file_step (run (parse_statement n)) (run (parse_file n)) (pending c)"
proof (cases c rule: coming_up_1_cases)
  case (eof c1)
  then show ?thesis by (simp add: parse_file_step_def observe_eq)
next
  case (tok t ts c1)
  obtain r2 c2 where s: "parse_statement n c1 = (r2, c2)" by (cases "parse_statement n c1")
  have "observe (parse_statement n c1) = run (parse_statement n) (pending c1)"
    by (rule on_pendingD) (rule on_pending_parse_statement)
  with s tok have rs: "run (parse_statement n) (t # ts) = (r2, pending c2)"
    by (simp add: observe_eq)
  show ?thesis
  proof (cases r2)
    case (Inl e)
    with tok s rs show ?thesis by (simp add: parse_file_step_def observe_eq)
  next
    case (Inr st)
    obtain ss r3 c3 where f: "parse_file n c2 = ((ss, r3), c3)"
      by (cases "parse_file n c2") auto
    have "observe (parse_file n c2) = run (parse_file n) (pending c2)"
      using assms by (rule on_pendingD)
    with f have "run (parse_file n) (pending c2) = ((ss, r3), pending c3)"
      by (simp add: observe_eq)
    with Inr tok s rs f show ?thesis by (simp add: parse_file_step_def observe_eq)
  qed
qed

lemma on_pending_parse_file [on_pending_intros]: "on_pending (parse_file n)"
proof (induction n)
  case 0
  show ?case by (simp add: on_pending_def run_def observe_def)
next
  case (Suc n)
  show ?case
    unfolding on_pending_def run_def
    by (simp add: observe_parse_file_Suc [OF Suc] del: parse_file.simps)
qed

lemma run_parse_file_Suc:
  "run (parse_file (Suc n)) l =
     parse_file_step (run (parse_statement n)) (run (parse_file n)) l"
  by (simp add: run_def [of "parse_file (Suc n)"] observe_parse_file_Suc on_pending_parse_file
       del: parse_file.simps)

lemma run_parse_file_0: "run (parse_file 0) l = (([], Some OutOfFuel), l)"
  by (simp add: run_def observe_def)

lemma fst_parse: "fst (parse n tokens) = fst (run (parse_file n) tokens)"
  by (simp add: parse_def run_def observe_def)

lemmas parser_defs = parse_expression_statement_def assignment_def type_and_name_def
  parse_declaration_def parse_return_def parse_comma_list_def info_def KEYWORDS_def

subsection \<open>Expressions and comma lists on token lists\<close>

lemma run_after_element:
  "run (and_then (coming_up 1) (\<lambda>t.
       if info t = (''OP'', stop)
       then and_then pop (\<lambda>last_token. return_value (elements @ [x], last_token))
       else
         and_then (check_and_pop ''OP'' (Some '','')) (\<lambda>_.
         and_then (coming_up 1) (\<lambda>t'.
           if info t' = (''OP'', stop)
           then and_then pop (\<lambda>last_token. return_value (elements @ [x], last_token))
           else k)))) u =
     (case u of
        [] \<Rightarrow> (Inl EOFError, [])
      | t # ts \<Rightarrow>
          if info t = (''OP'', stop) then (Inr (elements @ [x], t), ts)
          else if token_kind t \<noteq> ''OP'' \<or> token_value t \<noteq> '','' then (Inl (AssertionError_token t), u)
          else (case ts of
                  [] \<Rightarrow> (Inl EOFError, [])
                | t' # ts' \<Rightarrow>
                    if info t' = (''OP'', stop) then (Inr (elements @ [x], t'), ts')
                    else run k ts))"
  if "on_pending k"
proof (cases u)
  case Nil
  then show ?thesis using that by (simp add: run_simps on_pending_intros)
next
  case (Cons t ts)
  show ?thesis
  proof (cases ts)
    case Nil
    with Cons show ?thesis using that by (simp add: run_simps on_pending_intros)
  next
    case (Cons t' ts')
    with \<open>u = t # ts\<close> show ?thesis using that by (simp add: run_simps on_pending_intros)
  qed
qed

lemma run_comma_list_loop_Suc:
  assumes "on_pending parsemethod"
  shows "run (comma_list_loop (Suc n) stop parsemethod elements) l =
     (case run parsemethod l of
        (Inl e, u) \<Rightarrow> (Inl e, u)
      | (Inr x, u) \<Rightarrow>
          (case u of
             [] \<Rightarrow> (Inl EOFError, [])
           | t # ts \<Rightarrow>
               if info t = (''OP'', stop) then (Inr (elements @ [x], t), ts)
               else if token_kind t \<noteq> ''OP'' \<or> token_value t \<noteq> '','' then (Inl (AssertionError_token t), u)
               else (case ts of
                       [] \<Rightarrow> (Inl EOFError, [])
                     | t' # ts' \<Rightarrow>
                         if info t' = (''OP'', stop) then (Inr (elements @ [x], t'), ts')
                         else run (comma_list_loop n stop parsemethod (elements @ [x])) ts)))"
proof -
  have k: "on_pending (comma_list_loop n stop parsemethod (elements @ [x]))" for x
    using assms by (rule on_pending_comma_list_loop)
  obtain r u where p: "run parsemethod l = (r, u)" by (cases "run parsemethod l")
  show ?thesis
  proof (cases r)
    case (Inl e)
    with p show ?thesis
      using assms by (simp add: run_and_then on_pending_intros and_then_def)
  next
    case (Inr x)
    have "run (comma_list_loop (Suc n) stop parsemethod elements) l =
        run (and_then (coming_up 1) (\<lambda>t.
         if info t = (''OP'', stop)
         then and_then pop (\<lambda>last_token. return_value (elements @ [x], last_token))
         else
           and_then (check_and_pop ''OP'' (Some '','')) (\<lambda>_.
           and_then (coming_up 1) (\<lambda>t'.
             if info t' = (''OP'', stop)
             then and_then pop (\<lambda>last_token. return_value (elements @ [x], last_token))
             else comma_list_loop n stop parsemethod (elements @ [x]))))) u"
      using p Inr assms by (simp add: run_and_then on_pending_intros and_then_def)
    then show ?thesis
      using p Inr by (simp add: run_after_element [OF k])
  qed
qed

lemma run_parse_comma_list:
  assumes "on_pending parsemethod"
  shows "run (parse_comma_list n stop parsemethod) l =
     (case l of
        [] \<Rightarrow> (Inl EOFError, [])
      | t # ts \<Rightarrow>
          if info t = (''OP'', stop) then (Inr ([], t), ts)
          else run (comma_list_loop n stop parsemethod []) l)"
  using assms
  by (simp add: parse_comma_list_def run_simps on_pending_intros split: list.splits)

lemma run_parse_expression_loop_Suc:
  "run (parse_expression_loop (Suc n) result) l =
     (case l of
        [] \<Rightarrow> (Inl EOFError, [])
      | t # ts \<Rightarrow>
          if token_kind t \<noteq> ''OP'' \<or> token_value t \<noteq> ''('' then (Inr result, l)
          else (case run (parse_comma_list n '')'' (parse_expression n)) ts of
                  (Inl e, u) \<Rightarrow> (Inl e, u)
                | (Inr (arguments, last_token), u) \<Rightarrow>
                    run (parse_expression_loop n
                      (FunctionCall result arguments (node_start result) (token_end last_token))) u))"
proof (cases l)
  case Nil
  then show ?thesis by (simp add: run_simps on_pending_intros)
next
  case (Cons t ts)
  show ?thesis
  proof (cases "token_kind t \<noteq> ''OP'' \<or> token_value t \<noteq> ''(''")
    case True
    with Cons show ?thesis by (simp add: run_simps on_pending_intros)
  next
    case False
    with Cons show ?thesis
      by (cases "run (parse_comma_list n '')'' (parse_expression n)) ts";
          cases "fst (run (parse_comma_list n '')'' (parse_expression n)) ts)")
         (auto simp add: run_simps on_pending_intros)
  qed
qed

lemma run_parse_expression_Suc:
  "run (parse_expression (Suc n)) l =
     (case l of
        [] \<Rightarrow> (Inl EOFError, [])
      | t # ts \<Rightarrow>
          if token_kind t = ''NAME''
          then (if token_value t \<in> KEYWORDS then (Inl (AssertionError_keyword (token_value t)), ts)
                else run (parse_expression_loop n
                       (Name (token_value t) (token_start t) (token_end t))) ts)
          else if token_kind t = ''STRING''
          then run (parse_expression_loop n
                 (String (slice_1_m1 (token_value t)) (token_start t) (token_end t))) ts
          else if token_kind t = ''INTEGER''
          then (case py_int (token_value t) of
                  None \<Rightarrow> (Inl (ValueError_int (token_value t)), ts)
                | Some i \<Rightarrow>
                    run (parse_expression_loop n (Integer i (token_start t) (token_end t))) ts)
          else (Inl (ValueError_invalid_token t), l))"
proof (cases l)
  case Nil
  then show ?thesis by (simp add: run_simps on_pending_intros)
next
  case (Cons t ts)
  then show ?thesis
    by (cases "py_int (token_value t)") (simp_all add: run_simps on_pending_intros)
qed

lemma run_parse_expression_0: "run (parse_expression 0) l = (Inl OutOfFuel, l)"
  by (simp add: run_raise)

lemma run_parse_expression_loop_0: "run (parse_expression_loop 0 result) l = (Inl OutOfFuel, l)"
  by (simp add: run_raise)

lemma run_comma_list_loop_0:
  "run (comma_list_loop 0 stop parsemethod elements) l = (Inl OutOfFuel, l)"
  by (simp add: run_raise)

text \<open>From here on the equations above stand for the recursive definitions.\<close>

declare parse_expression.simps [simp del] parse_expression_loop.simps [simp del]
  comma_list_loop.simps [simp del]

lemmas run_expression_simps = run_parse_expression_0 run_parse_expression_loop_0
  run_comma_list_loop_0 run_parse_expression_Suc run_parse_expression_loop_Suc
  run_comma_list_loop_Suc run_parse_comma_list

subsection \<open>Statements on token lists\<close>

lemma run_and_then_eq:
  "(\<And>x. on_pending (f x)) \<Longrightarrow> run (and_then m f) = and_then (run m) (\<lambda>x. run (f x))"
  by (rule ext) (rule run_and_then)

lemma run_if_eq: "run (if b then p else q) = (if b then run p else run q)"
  by simp

lemma run_case_option_eq:
  "run (case v of None \<Rightarrow> p | Some x \<Rightarrow> q x) = (case v of None \<Rightarrow> run p | Some x \<Rightarrow> run (q x))"
  by (cases v) simp_all

lemma run_case_prod_eq:
  "run (case x of (a, b) \<Rightarrow> f a b) = (case x of (a, b) \<Rightarrow> run (f a b))"
  by (cases x) simp

lemma run_return_value_eq: "run (return_value x) = return_value x"
  by (rule ext) (simp add: run_return_value return_value_def)

lemma run_raise_eq: "run (raise e) = raise e"
  by (rule ext) (simp add: run_raise raise_def)

lemmas run_eqs = run_and_then_eq run_if_eq run_case_option_eq run_case_prod_eq
  run_return_value_eq run_raise_eq

lemma run_parse_statement_0: "run (parse_statement 0) l = (Inl OutOfFuel, l)"
  by (simp add: run_raise)

lemma run_parse_if_0: "run (parse_if 0) l = (Inl OutOfFuel, l)"
  by (simp add: run_raise)

lemma run_parse_if_loop_0: "run (parse_if_loop 0 body) l = (Inl OutOfFuel, l)"
  by (simp add: run_raise)

lemma run_parse_function_def_0: "run (parse_function_def 0) l = (Inl OutOfFuel, l)"
  by (simp add: run_raise)

lemma run_parse_function_def_loop_0: "run (parse_function_def_loop 0 body) l = (Inl OutOfFuel, l)"
  by (simp add: run_raise)

lemma run_parse_statement_Suc:
  "run (parse_statement (Suc n)) l =
     (case l of
        [] \<Rightarrow> (Inl EOFError, [])
      | t1 # ts \<Rightarrow>
          if token_kind t1 = ''NAME''
          then
            if token_value t1 = ''return'' then run (parse_return n) l
            else if token_value t1 = ''if'' then run (parse_if n) l
            else if token_value t1 = ''function'' then run (parse_function_def n) l
            else (case ts of
                    [] \<Rightarrow> (Inl EOFError, l)
                  | after_name # _ \<Rightarrow>
                      if info after_name = (''OP'', ''='') then run (assignment n) l
                      else if token_kind after_name = ''NAME'' then run (parse_declaration n) l
                      else run (parse_expression_statement n) l)
          else run (parse_expression_statement n) l)"
proof (cases l)
  case Nil
  then show ?thesis by (simp add: run_simps on_pending_intros)
next
  case (Cons t1 ts)
  then show ?thesis
    by (cases ts) (simp_all add: run_and_then run_if run_coming_up_1 run_coming_up_2
      and_then_def on_pending_intros)
qed

lemma run_parse_if_Suc:
  "run (parse_if (Suc n)) =
     and_then (run (check_and_pop ''NAME'' (Some ''if''))) (\<lambda>the_if.
     and_then (run (parse_expression n)) (\<lambda>condition.
     and_then (run (check_and_pop ''OP'' (Some ''{''))) (\<lambda>_.
     and_then (run (parse_if_loop n [])) (\<lambda>body.
     and_then (run (check_and_pop ''OP'' (Some ''}''))) (\<lambda>closing_brace.
       return_value (If_node condition body (token_start the_if) (token_end closing_brace)))))))"
  by (simp add: parse_if.simps run_eqs on_pending_intros)

lemma run_body_loop:
  assumes "on_pending k" "\<And>statement. on_pending (again statement)"
  shows "run (and_then (coming_up 1) (\<lambda>t.
       if info t \<noteq> (''OP'', ''}'') then and_then k again else return_value body)) l =
     (case l of
        [] \<Rightarrow> (Inl EOFError, [])
      | t # ts \<Rightarrow>
          if info t \<noteq> (''OP'', ''}'')
          then (case run k l of
                  (Inl e, u) \<Rightarrow> (Inl e, u)
                | (Inr statement, u) \<Rightarrow> run (again statement) u)
          else (Inr body, l))"
  using assms
  by (cases l) (simp_all add: run_and_then run_if run_coming_up_1 run_return_value
      and_then_def on_pending_intros)

lemma run_parse_if_loop_Suc:
  "run (parse_if_loop (Suc n) body) l =
     (case l of
        [] \<Rightarrow> (Inl EOFError, [])
      | t # ts \<Rightarrow>
          if info t \<noteq> (''OP'', ''}'')
          then (case run (parse_statement n) l of
                  (Inl e, u) \<Rightarrow> (Inl e, u)
                | (Inr statement, u) \<Rightarrow> run (parse_if_loop n (body @ [statement])) u)
          else (Inr body, l))"
  by (simp add: run_body_loop on_pending_intros)

lemma run_parse_function_def_loop_Suc:
  "run (parse_function_def_loop (Suc n) body) l =
     (case l of
        [] \<Rightarrow> (Inl EOFError, [])
      | t # ts \<Rightarrow>
          if info t \<noteq> (''OP'', ''}'')
          then (case run (parse_statement n) l of
                  (Inl e, u) \<Rightarrow> (Inl e, u)
                | (Inr statement, u) \<Rightarrow> run (parse_function_def_loop n (body @ [statement])) u)
          else (Inr body, l))"
  by (simp add: run_body_loop on_pending_intros)

lemma run_parse_function_def_Suc:
  "run (parse_function_def (Suc n)) =
     and_then (run (check_and_pop ''NAME'' (Some ''function''))) (\<lambda>function_keyword.
     and_then (run (parse_name True)) (\<lambda>name.
     and_then (run (check_and_pop ''OP'' (Some ''(''))) (\<lambda>_.
     and_then (run (parse_comma_list n '')'' type_and_name)) (\<lambda>(arguments, junk).
     and_then (run (coming_up 1)) (\<lambda>t.
     and_then
       (if info t = (''NAME'', ''returns'')
        then and_then (run pop) (\<lambda>_.
          and_then (run (parse_name True)) (\<lambda>returntype. return_value (Some returntype)))
        else return_value None)
       (\<lambda>returntype.
     and_then (run (check_and_pop ''OP'' None)) (\<lambda>before_body.
     and_then (run (parse_function_def_loop n [])) (\<lambda>body.
     and_then (run (check_and_pop ''OP'' (Some ''}''))) (\<lambda>closing_brace.
       case node_name name of
         None \<Rightarrow> raise AttributeError
       | Some s \<Rightarrow>
           return_value
             (FunctionDef s arguments returntype body
                (token_start function_keyword) (token_end closing_brace)))))))))))"
  by (simp add: parse_function_def.simps run_eqs on_pending_intros
      cong: if_cong option.case_cong)

declare parse_statement.simps [simp del] parse_if.simps [simp del] parse_if_loop.simps [simp del]
  parse_function_def.simps [simp del] parse_function_def_loop.simps [simp del]

lemmas run_statement_simps = run_parse_statement_0 run_parse_if_0 run_parse_if_loop_0
  run_parse_function_def_0 run_parse_function_def_loop_0 run_parse_statement_Suc
  run_parse_if_Suc run_parse_if_loop_Suc run_parse_function_def_Suc
  run_parse_function_def_loop_Suc

section \<open>Evaluating the parser\<close>

lemmas eval_simps = fst_parse run_parse_file_Suc run_parse_file_0 parse_file_step_def
  on_pending_intros run_simps run_expression_simps run_statement_simps parser_defs
  py_int_def py_strip_def py_isspace_def py_unsigned_def py_isdigit_def digit_value_def
  slice_1_m1_def return_value_def raise_def

section \<open>More of the counter never changes a result\<close>

named_theorems more_fuel_intros

lemma more_fuelD: "more_fuel p q \<Longrightarrow> fst (p c) \<noteq> Inl OutOfFuel \<Longrightarrow> q c = p c"
  by (simp add: more_fuel_def)

lemma more_fuel_refl [more_fuel_intros]: "more_fuel p p"
  by (simp add: more_fuel_def)

lemma more_fuel_out [more_fuel_intros]: "more_fuel (raise OutOfFuel) q"
  by (simp add: more_fuel_def raise_def)

lemma more_fuel_trans: "more_fuel p q \<Longrightarrow> more_fuel q r \<Longrightarrow> more_fuel p r"
  by (simp add: more_fuel_def)

lemma more_fuel_and_then [more_fuel_intros]:
  assumes "more_fuel m m'" "\<And>x. more_fuel (f x) (f' x)"
  shows "more_fuel (and_then m f) (and_then m' f')"
  unfolding more_fuel_def
proof (intro allI impI)
  fix c
  assume a: "fst (and_then m f c) \<noteq> Inl OutOfFuel"
  obtain r c1 where m: "m c = (r, c1)" by (cases "m c")
  show "and_then m' f' c = and_then m f c"
  proof (cases r)
    case (Inl e)
    with a m have "fst (m c) \<noteq> Inl OutOfFuel" by (simp add: and_then_def)
    with assms(1) have "m' c = m c" by (rule more_fuelD)
    with m Inl show ?thesis by (simp add: and_then_def)
  next
    case (Inr x)
    with m have "fst (m c) \<noteq> Inl OutOfFuel" by simp
    with assms(1) have m': "m' c = m c" by (rule more_fuelD)
    from a m Inr have "fst (f x c1) \<noteq> Inl OutOfFuel" by (simp add: and_then_def)
    with assms(2) have "f' x c1 = f x c1" by (rule more_fuelD)
    with m m' Inr show ?thesis by (simp add: and_then_def)
  qed
qed

lemma more_fuel_if [more_fuel_intros]:
  "(b \<Longrightarrow> more_fuel p p') \<Longrightarrow> (\<not> b \<Longrightarrow> more_fuel q q')
    \<Longrightarrow> more_fuel (if b then p else q) (if b then p' else q')"
  by simp

lemma more_fuel_case_prod [more_fuel_intros]:
  "(\<And>a b. more_fuel (f a b) (f' a b))
    \<Longrightarrow> more_fuel (case x of (a, b) \<Rightarrow> f a b) (case x of (a, b) \<Rightarrow> f' a b)"
  by (cases x) simp

lemma more_fuel_comma_list_loop:
  "more_fuel parsemethod parsemethod' \<Longrightarrow>
    more_fuel (comma_list_loop n stop parsemethod elements)
      (comma_list_loop (Suc n) stop parsemethod' elements)"
proof (induction n arbitrary: elements)
  case 0
  show ?case unfolding comma_list_loop.simps(1) by (rule more_fuel_out)
next
  case (Suc n)
  show ?case
    unfolding comma_list_loop.simps(2) [of "Suc n" stop parsemethod' elements]
      comma_list_loop.simps(2) [of n stop parsemethod elements]
    by (intro more_fuel_intros Suc)
qed

lemma more_fuel_parse_comma_list:
  "more_fuel parsemethod parsemethod' \<Longrightarrow>
    more_fuel (parse_comma_list n stop parsemethod) (parse_comma_list (Suc n) stop parsemethod')"
  unfolding parse_comma_list_def by (intro more_fuel_intros more_fuel_comma_list_loop)

lemma more_fuel_expression:
  "more_fuel (parse_expression n :: 'pos cursor \<Rightarrow> _) (parse_expression (Suc n))
    \<and> (\<forall>result :: 'pos node.
          more_fuel (parse_expression_loop n result) (parse_expression_loop (Suc n) result))"
proof (induction n)
  case 0
  show ?case
    unfolding parse_expression.simps(1) parse_expression_loop.simps(1)
    by (simp add: more_fuel_out)
next
  case (Suc n)
  from Suc have e: "more_fuel (parse_expression n :: 'pos cursor \<Rightarrow> _) (parse_expression (Suc n))"
    by blast
  from Suc have l: "\<And>result :: 'pos node.
      more_fuel (parse_expression_loop n result) (parse_expression_loop (Suc n) result)"
    by blast
  have "more_fuel (parse_expression (Suc n) :: 'pos cursor \<Rightarrow> _) (parse_expression (Suc (Suc n)))"
    unfolding parse_expression.simps(2) [of "Suc n"] parse_expression.simps(2) [of n]
    by (intro more_fuel_intros l)
  moreover have "more_fuel (parse_expression_loop (Suc n) result)
      (parse_expression_loop (Suc (Suc n)) result)" for result :: "'pos node"
    unfolding parse_expression_loop.simps(2) [of "Suc n" result]
      parse_expression_loop.simps(2) [of n result]
    by (intro more_fuel_intros l more_fuel_parse_comma_list e)
  ultimately show ?case by blast
qed

lemma more_fuel_parse_expression:
  "more_fuel (parse_expression n) (parse_expression (Suc n))"
  using more_fuel_expression by blast

lemma more_fuel_parse_expression_statement:
  "more_fuel (parse_expression_statement n) (parse_expression_statement (Suc n))"
  unfolding parse_expression_statement_def
  by (intro more_fuel_intros more_fuel_parse_expression)

lemma more_fuel_assignment: "more_fuel (assignment n) (assignment (Suc n))"
  unfolding assignment_def by (intro more_fuel_intros more_fuel_parse_expression)

lemma more_fuel_parse_declaration: "more_fuel (parse_declaration n) (parse_declaration (Suc n))"
  unfolding parse_declaration_def by (intro more_fuel_intros more_fuel_parse_expression)

lemma more_fuel_parse_return: "more_fuel (parse_return n) (parse_return (Suc n))"
  unfolding parse_return_def by (intro more_fuel_intros more_fuel_parse_expression)

lemmas more_fuel_plain = more_fuel_parse_expression more_fuel_parse_expression_statement
  more_fuel_assignment more_fuel_parse_declaration more_fuel_parse_return

lemma more_fuel_statement:
  "more_fuel (parse_statement n :: 'pos cursor \<Rightarrow> _) (parse_statement (Suc n))
    \<and> more_fuel (parse_if n :: 'pos cursor \<Rightarrow> _) (parse_if (Suc n))
    \<and> (\<forall>body :: 'pos node list. more_fuel (parse_if_loop n body) (parse_if_loop (Suc n) body))
    \<and> more_fuel (parse_function_def n :: 'pos cursor \<Rightarrow> _) (parse_function_def (Suc n))
    \<and> (\<forall>body :: 'pos node list.
          more_fuel (parse_function_def_loop n body) (parse_function_def_loop (Suc n) body))"
proof (induction n)
  case 0
  show ?case
    unfolding parse_statement.simps(1) parse_if.simps(1) parse_if_loop.simps(1)
      parse_function_def.simps(1) parse_function_def_loop.simps(1)
    by (simp add: more_fuel_out)
next
  case (Suc n)
  from Suc have ih:
    "more_fuel (parse_statement n :: 'pos cursor \<Rightarrow> _) (parse_statement (Suc n))"
    "more_fuel (parse_if n :: 'pos cursor \<Rightarrow> _) (parse_if (Suc n))"
    "\<And>body :: 'pos node list. more_fuel (parse_if_loop n body) (parse_if_loop (Suc n) body)"
    "more_fuel (parse_function_def n :: 'pos cursor \<Rightarrow> _) (parse_function_def (Suc n))"
    "\<And>body :: 'pos node list.
      more_fuel (parse_function_def_loop n body) (parse_function_def_loop (Suc n) body)"
    by blast+
  have "more_fuel (parse_statement (Suc n) :: 'pos cursor \<Rightarrow> _) (parse_statement (Suc (Suc n)))"
    unfolding parse_statement.simps(2) [of "Suc n"] parse_statement.simps(2) [of n]
    by (intro more_fuel_intros ih more_fuel_plain)
  moreover have "more_fuel (parse_if (Suc n) :: 'pos cursor \<Rightarrow> _) (parse_if (Suc (Suc n)))"
    unfolding parse_if.simps(2) [of "Suc n"] parse_if.simps(2) [of n]
    by (intro more_fuel_intros ih more_fuel_plain)
  moreover have "more_fuel (parse_if_loop (Suc n) body) (parse_if_loop (Suc (Suc n)) body)"
    for body :: "'pos node list"
    unfolding parse_if_loop.simps(2) [of "Suc n" body] parse_if_loop.simps(2) [of n body]
    by (intro more_fuel_intros ih more_fuel_plain)
  moreover have "more_fuel (parse_function_def (Suc n) :: 'pos cursor \<Rightarrow> _)
      (parse_function_def (Suc (Suc n)))"
    unfolding parse_function_def.simps(2) [of "Suc n"] parse_function_def.simps(2) [of n]
    by (intro more_fuel_intros ih more_fuel_plain more_fuel_parse_comma_list)
  moreover have "more_fuel (parse_function_def_loop (Suc n) body)
      (parse_function_def_loop (Suc (Suc n)) body)" for body :: "'pos node list"
    unfolding parse_function_def_loop.simps(2) [of "Suc n" body]
      parse_function_def_loop.simps(2) [of n body]
    by (intro more_fuel_intros ih more_fuel_plain)
  ultimately show ?case by blast
qed

lemma more_fuel_parse_statement: "more_fuel (parse_statement n) (parse_statement (Suc n))"
  using more_fuel_statement by blast

lemma parse_file_more_fuel:
  "snd (fst (parse_file n c)) \<noteq> Some OutOfFuel \<Longrightarrow> parse_file (Suc n) c = parse_file n c"
proof (induction n arbitrary: c)
  case 0
  then show ?case by simp
next
  case (Suc n)
  obtain r c1 where u: "coming_up 1 c = (r, c1)" by (cases "coming_up 1 c")
  show ?case
  proof (cases r)
    case (Inl e)
    with u show ?thesis by (simp add: parse_file.simps(2) [of "Suc n"] parse_file.simps(2) [of n])
  next
    case (Inr t)
    obtain r2 c2 where s: "parse_statement n c1 = (r2, c2)" by (cases "parse_statement n c1")
    show ?thesis
    proof (cases r2)
      case (Inl e)
      with Suc.prems u Inr s have "fst (parse_statement n c1) \<noteq> Inl OutOfFuel"
        by (auto simp add: parse_file.simps(2) [of n])
      with more_fuel_parse_statement have "parse_statement (Suc n) c1 = parse_statement n c1"
        by (rule more_fuelD)
      with u Inr s Inl show ?thesis
        by (simp add: parse_file.simps(2) [of "Suc n"] parse_file.simps(2) [of n])
    next
      case (Inr st)
      with s have "fst (parse_statement n c1) \<noteq> Inl OutOfFuel" by simp
      with more_fuel_parse_statement have p: "parse_statement (Suc n) c1 = parse_statement n c1"
        by (rule more_fuelD)
      from Suc.prems u \<open>r = Inr t\<close> s Inr have "snd (fst (parse_file n c2)) \<noteq> Some OutOfFuel"
        by (auto simp add: parse_file.simps(2) [of n] split: prod.splits)
      then have "parse_file (Suc n) c2 = parse_file n c2" by (rule Suc.IH)
      with u \<open>r = Inr t\<close> s Inr p show ?thesis
        by (simp add: parse_file.simps(2) [of "Suc n"] parse_file.simps(2) [of n])
    qed
  qed
qed

lemma parse_file_more_fuel_add:
  "snd (fst (parse_file n c)) \<noteq> Some OutOfFuel \<Longrightarrow> parse_file (n + k) c = parse_file n c"
proof (induction k)
  case 0
  show ?case by simp
next
  case (Suc k)
  then have "snd (fst (parse_file (n + k) c)) \<noteq> Some OutOfFuel" by simp
  then have "parse_file (Suc (n + k)) c = parse_file (n + k) c" by (rule parse_file_more_fuel)
  with Suc show ?case by simp
qed

section \<open>What a parse consumes, and what it depends on\<close>

lemma consumingD: "consuming P \<Longrightarrow> P l = (Inr x, u) \<Longrightarrow> suffix u l"
  by (auto simp add: consuming_def)

lemma local_parserD:
  "local_parser Q P \<Longrightarrow> P (pre @ s) = (Inr x, s) \<Longrightarrow> s' \<noteq> [] \<Longrightarrow> Q (hd s')
    \<Longrightarrow> P (pre @ s') = (Inr x, s')"
  unfolding local_parser_def by blast

lemma suffix_split:
  assumes "suffix s u" "suffix u (pre @ s)"
  obtains zs ys where "pre = zs @ ys" "u = ys @ s"
proof -
  from assms(1) obtain ys where u: "u = ys @ s" by (auto simp add: suffix_def)
  from assms(2) obtain zs where "pre @ s = zs @ u" by (auto simp add: suffix_def)
  with u have "pre = zs @ ys" by simp
  with u that show thesis by blast
qed

lemma comma_list_loop_SucE:
  assumes "on_pending parsemethod"
    and "run (comma_list_loop (Suc n) stop parsemethod elements) l = (Inr y, v)"
  obtains (stop) x t where "run parsemethod l = (Inr x, t # v)" "info t = (''OP'', stop)"
      "y = (elements @ [x], t)"
  | (comma_stop) x t t' where "run parsemethod l = (Inr x, t # t' # v)"
      "info t \<noteq> (''OP'', stop)" "info t = (''OP'', '','')" "info t' = (''OP'', stop)"
      "y = (elements @ [x], t')"
  | (again) x t t' ts' where "run parsemethod l = (Inr x, t # t' # ts')"
      "info t \<noteq> (''OP'', stop)" "info t = (''OP'', '','')" "info t' \<noteq> (''OP'', stop)"
      "run (comma_list_loop n stop parsemethod (elements @ [x])) (t' # ts') = (Inr y, v)"
proof -
  obtain r u where p: "run parsemethod l = (r, u)" by (cases "run parsemethod l")
  from assms p obtain x where r: "r = Inr x"
    by (cases r) (simp_all add: run_comma_list_loop_Suc)
  from assms p r obtain t ts where u: "u = t # ts"
    by (cases u) (simp_all add: run_comma_list_loop_Suc)
  show thesis
  proof (cases "info t = (''OP'', stop)")
    case True
    with assms p r u have "ts = v" "y = (elements @ [x], t)"
      by (simp_all add: run_comma_list_loop_Suc)
    with p r u True show thesis by (auto intro: stop)
  next
    case False
    with assms p r u have c: "info t = (''OP'', '','')"
      by (auto simp add: run_comma_list_loop_Suc info_def split: if_splits)
    from assms p r u False c obtain t' ts' where ts: "ts = t' # ts'"
      by (cases ts) (simp_all add: run_comma_list_loop_Suc info_def)
    show thesis
    proof (cases "info t' = (''OP'', stop)")
      case True
      with assms p r u False c ts have "ts' = v" "y = (elements @ [x], t')"
        by (simp_all add: run_comma_list_loop_Suc info_def)
      with p r u ts False c True show thesis by (auto intro: comma_stop)
    next
      case f: False
      with assms p r u False c ts
      have "run (comma_list_loop n stop parsemethod (elements @ [x])) (t' # ts') = (Inr y, v)"
        by (auto simp add: run_comma_list_loop_Suc info_def split: if_splits)
      with p r u ts False c f show thesis by (auto intro: again)
    qed
  qed
qed

lemma comma_list_loop_consuming:
  assumes "on_pending parsemethod" "consuming (run parsemethod)"
  shows "run (comma_list_loop n stop parsemethod elements) l = (Inr y, v) \<Longrightarrow> strict_suffix v l"
proof (induction n arbitrary: elements l)
  case 0
  then show ?case by (simp add: run_comma_list_loop_0)
next
  case (Suc n)
  from assms(1) Suc.prems show ?case
  proof (cases rule: comma_list_loop_SucE)
    case (stop x t)
    from assms(2) stop(1) have "suffix (t # v) l" by (rule consumingD)
    then show ?thesis by (auto simp add: suffix_def strict_suffix_def)
  next
    case (comma_stop x t t')
    from assms(2) comma_stop(1) have "suffix (t # t' # v) l" by (rule consumingD)
    then show ?thesis by (auto simp add: suffix_def strict_suffix_def)
  next
    case (again x t t' ts')
    from assms(2) again(1) have "suffix (t # t' # ts') l" by (rule consumingD)
    moreover from again(5) have "strict_suffix v (t' # ts')" by (rule Suc.IH)
    ultimately show ?thesis by (auto simp add: suffix_def strict_suffix_def)
  qed
qed

lemma parse_comma_listE:
  assumes "on_pending parsemethod"
    and "run (parse_comma_list n stop parsemethod) l = (Inr y, v)"
  obtains (empty) t where "l = t # v" "info t = (''OP'', stop)" "y = ([], t)"
  | (elements) t ts where "l = t # ts" "info t \<noteq> (''OP'', stop)"
      "run (comma_list_loop n stop parsemethod []) l = (Inr y, v)"
proof -
  from assms obtain t ts where l: "l = t # ts"
    by (cases l) (simp_all add: run_parse_comma_list)
  show thesis
  proof (cases "info t = (''OP'', stop)")
    case True
    with assms l show thesis by (auto simp add: run_parse_comma_list intro: empty)
  next
    case False
    with assms l show thesis by (auto simp add: run_parse_comma_list intro: elements)
  qed
qed

lemma parse_comma_list_consuming:
  assumes "on_pending parsemethod" "consuming (run parsemethod)"
    and "run (parse_comma_list n stop parsemethod) l = (Inr y, v)"
  shows "strict_suffix v l"
  using assms(1,3)
proof (cases rule: parse_comma_listE)
  case (empty t)
  then show ?thesis by (auto simp add: suffix_def strict_suffix_def)
next
  case (elements t ts)
  from assms(1,2) elements(3) show ?thesis by (rule comma_list_loop_consuming)
qed

lemma parse_expression_SucE:
  assumes "run (parse_expression (Suc n)) l = (Inr x, v)"
  obtains t ts r where "l = t # ts" "run (parse_expression_loop n r) ts = (Inr x, v)"
    "\<And>l'. run (parse_expression (Suc n)) (t # l') = run (parse_expression_loop n r) l'"
proof -
  from assms obtain t ts where l: "l = t # ts"
    by (cases l) (simp_all add: run_parse_expression_Suc)
  show thesis
  proof (cases "token_kind t = ''NAME''")
    case True
    with assms l have k: "token_value t \<notin> KEYWORDS"
      by (auto simp add: run_parse_expression_Suc split: if_splits)
    with True assms l show thesis
      by (intro that [of t ts "Name (token_value t) (token_start t) (token_end t)"])
         (simp_all add: run_parse_expression_Suc)
  next
    case not_name: False
    show thesis
    proof (cases "token_kind t = ''STRING''")
      case True
      with not_name assms l show thesis
        by (intro that [of t ts "String (slice_1_m1 (token_value t)) (token_start t) (token_end t)"])
           (simp_all add: run_parse_expression_Suc)
    next
      case not_string: False
      show thesis
      proof (cases "token_kind t = ''INTEGER''")
        case True
        with not_name not_string assms l obtain i where i: "py_int (token_value t) = Some i"
          by (cases "py_int (token_value t)") (simp_all add: run_parse_expression_Suc)
        with True not_name not_string assms l show thesis
          by (intro that [of t ts "Integer i (token_start t) (token_end t)"])
             (simp_all add: run_parse_expression_Suc)
      next
        case False
        with not_name not_string assms l show thesis by (simp add: run_parse_expression_Suc)
      qed
    qed
  qed
qed

lemma parse_expression_loop_SucE:
  assumes "run (parse_expression_loop (Suc n) r) l = (Inr x, v)"
  obtains (stay) t ts where "l = t # ts" "info t \<noteq> (''OP'', ''('')" "x = r" "v = l"
  | (call) t ts arguments last_token u where "l = t # ts" "info t = (''OP'', ''('')"
      "run (parse_comma_list n '')'' (parse_expression n)) ts = (Inr (arguments, last_token), u)"
      "run (parse_expression_loop n
         (FunctionCall r arguments (node_start r) (token_end last_token))) u = (Inr x, v)"
proof -
  from assms obtain t ts where l: "l = t # ts"
    by (cases l) (simp_all add: run_parse_expression_loop_Suc)
  show thesis
  proof (cases "info t = (''OP'', ''('')")
    case False
    with assms l show thesis
      by (intro stay [of t ts]) (auto simp add: run_parse_expression_loop_Suc info_def)
  next
    case True
    obtain q u where cl: "run (parse_comma_list n '')'' (parse_expression n)) ts = (q, u)"
      by (cases "run (parse_comma_list n '')'' (parse_expression n)) ts")
    with assms l True obtain arguments last_token where q: "q = Inr (arguments, last_token)"
      by (cases q) (auto simp add: run_parse_expression_loop_Suc info_def)
    with assms l True cl show thesis
      by (intro call [of t ts arguments last_token u])
         (auto simp add: run_parse_expression_loop_Suc info_def)
  qed
qed

lemma expression_consuming:
  "(\<forall>(l :: 'pos token list) x v. run (parse_expression n) l = (Inr x, v) \<longrightarrow> strict_suffix v l)
    \<and> (\<forall>r (l :: 'pos token list) x v.
          run (parse_expression_loop n r) l = (Inr x, v) \<longrightarrow> suffix v l)"
proof (induction n)
  case 0
  show ?case by (simp add: run_parse_expression_0 run_parse_expression_loop_0)
next
  case (Suc n)
  from Suc have e: "consuming (run (parse_expression n :: 'pos cursor \<Rightarrow> _))"
    by (auto simp add: consuming_def strict_suffix_def)
  from Suc have lp: "\<And>r (l :: 'pos token list) x v.
      run (parse_expression_loop n r) l = (Inr x, v) \<Longrightarrow> suffix v l"
    by blast
  have "strict_suffix v l" if "run (parse_expression (Suc n)) l = (Inr x, v)"
    for l :: "'pos token list" and x v
    using that
  proof (cases rule: parse_expression_SucE)
    case (1 t ts r)
    from lp [OF 1(2)] 1(1) show ?thesis by (auto simp add: suffix_def strict_suffix_def)
  qed
  moreover have "suffix v l" if "run (parse_expression_loop (Suc n) r) l = (Inr x, v)"
    for r and l :: "'pos token list" and x v
    using that
  proof (cases rule: parse_expression_loop_SucE)
    case (stay t ts)
    then show ?thesis by simp
  next
    case (call t ts arguments last_token u)
    have "strict_suffix u ts"
      using on_pending_parse_expression e call(3) by (rule parse_comma_list_consuming)
    moreover from call(4) have "suffix v u" by (rule lp)
    ultimately show ?thesis using call(1) by (auto simp add: suffix_def strict_suffix_def)
  qed
  ultimately show ?case by blast
qed

lemma parse_expression_strict: "run (parse_expression n) l = (Inr x, v) \<Longrightarrow> strict_suffix v l"
  using expression_consuming by blast

lemma parse_expression_loop_suffix:
  "run (parse_expression_loop n r) l = (Inr x, v) \<Longrightarrow> suffix v l"
  using expression_consuming by blast

lemma consuming_parse_expression: "consuming (run (parse_expression n))"
  unfolding consuming_def using parse_expression_strict by (auto simp add: strict_suffix_def)

lemma comma_list_loop_local:
  assumes "on_pending parsemethod" "consuming (run parsemethod)" "local_parser Q (run parsemethod)"
    and "\<And>t. info t = (''OP'', stop) \<Longrightarrow> Q t" and "\<And>t. info t = (''OP'', '','') \<Longrightarrow> Q t"
  shows "run (comma_list_loop n stop parsemethod elements) (pre @ s) = (Inr y, s) \<Longrightarrow>
    run (comma_list_loop n stop parsemethod elements) (pre @ s') = (Inr y, s')"
proof (induction n arbitrary: elements pre)
  case 0
  then show ?case by (simp add: run_comma_list_loop_0)
next
  case (Suc n)
  from assms(1) Suc.prems show ?case
  proof (cases rule: comma_list_loop_SucE)
    case (stop x t)
    from assms(2) stop(1) have "suffix (t # s) (pre @ s)" by (rule consumingD)
    then have pre: "pre = butlast pre @ [t]"
      by (auto simp add: suffix_def append_eq_append_conv2 append_eq_Cons_conv Cons_eq_append_conv)
    define zs where "zs = butlast pre"
    from pre have p: "pre = zs @ [t]" by (simp add: zs_def)
    from stop(1) p have "run parsemethod (zs @ (t # s)) = (Inr x, t # s)" by simp
    with assms(3) have "run parsemethod (zs @ (t # s')) = (Inr x, t # s')"
      by (rule local_parserD) (simp_all add: assms(4) stop(2))
    with p stop(2,3) show ?thesis
      using assms(1) by (simp add: run_comma_list_loop_Suc)
  next
    case (comma_stop x t t')
    from assms(2) comma_stop(1) have "suffix (t # t' # s) (pre @ s)" by (rule consumingD)
    then obtain zs where p: "pre = zs @ [t, t']"
      by (auto simp add: suffix_def append_eq_append_conv2 append_eq_Cons_conv Cons_eq_append_conv)
    from comma_stop(1) p have "run parsemethod (zs @ (t # t' # s)) = (Inr x, t # t' # s)" by simp
    with assms(3) have "run parsemethod (zs @ (t # t' # s')) = (Inr x, t # t' # s')"
      by (rule local_parserD) (simp_all add: assms(5) comma_stop(3))
    with p comma_stop show ?thesis
      using assms(1) by (simp add: run_comma_list_loop_Suc info_def)
  next
    case (again x t t' ts')
    from assms(1,2) again(5) have st: "strict_suffix s (t' # ts')"
      by (rule comma_list_loop_consuming)
    then obtain ys where ys: "t' # ts' = ys @ s" "ys \<noteq> []"
      by (auto simp add: strict_suffix_def suffix_def)
    then obtain ys' where ys': "ys = t' # ys'" by (cases ys) auto
    from assms(2) again(1) have "suffix (t # t' # ts') (pre @ s)" by (rule consumingD)
    with ys obtain zs where p: "pre = zs @ t # ys"
      by (auto simp add: suffix_def)
    from again(1) p ys have "run parsemethod (zs @ (t # ys @ s)) = (Inr x, t # ys @ s)" by simp
    with assms(3) have "run parsemethod (zs @ (t # ys @ s')) = (Inr x, t # ys @ s')"
      by (rule local_parserD) (simp_all add: assms(5) again(3))
    moreover from again(5) ys
    have "run (comma_list_loop n stop parsemethod (elements @ [x])) (ys @ s') = (Inr y, s')"
      by (intro Suc.IH) simp
    ultimately show ?thesis
      using p ys' again(2,3,4) assms(1) by (auto simp add: run_comma_list_loop_Suc info_def)
  qed
qed

lemma parse_comma_list_local:
  assumes "on_pending parsemethod" "consuming (run parsemethod)" "local_parser Q (run parsemethod)"
    and "\<And>t. info t = (''OP'', stop) \<Longrightarrow> Q t" and "\<And>t. info t = (''OP'', '','') \<Longrightarrow> Q t"
    and "run (parse_comma_list n stop parsemethod) (pre @ s) = (Inr y, s)"
  shows "run (parse_comma_list n stop parsemethod) (pre @ s') = (Inr y, s')"
  using assms(1,6)
proof (cases rule: parse_comma_listE)
  case (empty t)
  then have "pre = [t]" by (cases pre) auto
  with empty assms(1) show ?thesis by (simp add: run_parse_comma_list)
next
  case (elements t ts)
  from assms(1,2) elements(3) have "strict_suffix s (pre @ s)"
    by (rule comma_list_loop_consuming)
  then have "pre \<noteq> []" by (auto simp add: strict_suffix_def)
  with elements(1) obtain pre' where p: "pre = t # pre'" by (cases pre) auto
  from assms(1-5) elements(3)
  have "run (comma_list_loop n stop parsemethod []) (pre @ s') = (Inr y, s')"
    by (rule comma_list_loop_local)
  with p elements(2) assms(1) show ?thesis by (simp add: run_parse_comma_list)
qed

lemma expression_local:
  "local_parser not_open_paren (run (parse_expression n :: 'pos cursor \<Rightarrow> _))
    \<and> (\<forall>r :: 'pos node. local_parser not_open_paren (run (parse_expression_loop n r)))"
proof (induction n)
  case 0
  show ?case
    by (simp add: local_parser_def run_parse_expression_0 run_parse_expression_loop_0)
next
  case (Suc n)
  from Suc have e: "local_parser not_open_paren (run (parse_expression n :: 'pos cursor \<Rightarrow> _))"
    by blast
  from Suc have lp: "\<And>r :: 'pos node. local_parser not_open_paren (run (parse_expression_loop n r))"
    by blast
  have "run (parse_expression (Suc n)) (pre @ s') = (Inr x, s')"
    if a: "run (parse_expression (Suc n)) (pre @ s) = (Inr x, s)"
      and s': "s' \<noteq> []" "not_open_paren (hd s')"
    for pre s s' :: "'pos token list" and x
    using a
  proof (cases rule: parse_expression_SucE)
    case (1 t ts r)
    from 1(2) have "suffix s ts" by (rule parse_expression_loop_suffix)
    with 1(1) have "pre \<noteq> []" by (cases pre) (auto simp add: suffix_def)
    with 1(1) obtain pre' where p: "pre = t # pre'" "ts = pre' @ s" by (cases pre) auto
    from lp 1(2) [unfolded p(2)] s' have "run (parse_expression_loop n r) (pre' @ s') = (Inr x, s')"
      by (rule local_parserD)
    with 1(3) p show ?thesis by simp
  qed
  then have first: "local_parser not_open_paren (run (parse_expression (Suc n) :: 'pos cursor \<Rightarrow> _))"
    unfolding local_parser_def by blast
  have "run (parse_expression_loop (Suc n) r) (pre @ s') = (Inr x, s')"
    if a: "run (parse_expression_loop (Suc n) r) (pre @ s) = (Inr x, s)"
      and s': "s' \<noteq> []" "not_open_paren (hd s')"
    for pre s s' :: "'pos token list" and x and r :: "'pos node"
    using a
  proof (cases rule: parse_expression_loop_SucE)
    case (stay t ts)
    then have "pre = []" by simp
    moreover from s' obtain t' ts' where "s' = t' # ts'" "info t' \<noteq> (''OP'', ''('')"
      by (cases s') (auto simp add: not_open_paren_def)
    ultimately show ?thesis
      using stay(3) by (auto simp add: run_parse_expression_loop_Suc info_def)
  next
    case (call t ts arguments last_token u)
    have u: "strict_suffix u ts"
      using on_pending_parse_expression consuming_parse_expression call(3)
      by (rule parse_comma_list_consuming)
    from call(4) have v: "suffix s u" by (rule parse_expression_loop_suffix)
    from u v call(1) have "pre \<noteq> []"
      by (cases pre) (auto simp add: suffix_def strict_suffix_def)
    with call(1) obtain pre' where p: "pre = t # pre'" "ts = pre' @ s" by (cases pre) auto
    from u have "suffix u (pre' @ s)" by (simp add: p strict_suffix_def)
    with v obtain zs ys where z: "pre' = zs @ ys" "u = ys @ s" by (rule suffix_split)
    have "run (parse_comma_list n '')'' (parse_expression n)) (zs @ (ys @ s'))
        = (Inr (arguments, last_token), ys @ s')"
    proof (rule parse_comma_list_local [OF on_pending_parse_expression consuming_parse_expression e])
      show "not_open_paren t" if "info t = (''OP'', '')'')" for t :: "'pos token"
        using that by (simp add: not_open_paren_def)
      show "not_open_paren t" if "info t = (''OP'', '','')" for t :: "'pos token"
        using that by (simp add: not_open_paren_def)
      show "run (parse_comma_list n '')'' (parse_expression n)) (zs @ ys @ s)
          = (Inr (arguments, last_token), ys @ s)"
        using call(3) p z by simp
    qed
    moreover from lp call(4) [unfolded z(2)] s'
    have "run (parse_expression_loop n
        (FunctionCall r arguments (node_start r) (token_end last_token))) (ys @ s') = (Inr x, s')"
      by (rule local_parserD)
    ultimately show ?thesis
      using p z call(2) by (simp add: run_parse_expression_loop_Suc info_def)
  qed
  then have "\<And>r :: 'pos node. local_parser not_open_paren (run (parse_expression_loop (Suc n) r))"
    unfolding local_parser_def by blast
  with first show ?case by blast
qed

lemma local_parse_expression: "local_parser not_open_paren (run (parse_expression n))"
  using expression_local by blast

lemma comma_list_loop_trailing_comma:
  assumes "on_pending parsemethod" "consuming (run parsemethod)" "local_parser Q (run parsemethod)"
    and "\<And>t. info t = (''OP'', '','') \<Longrightarrow> Q t" and "stop \<noteq> '',''"
    and "info comma = (''OP'', '','')" and "info closing' = (''OP'', stop)"
  shows "run (comma_list_loop n stop parsemethod elements) (pre @ closing # rest) = (Inr (ys, tk), rest)
    \<Longrightarrow> pre \<noteq> [] \<Longrightarrow> info (last pre) \<noteq> (''OP'', '','')
    \<Longrightarrow> run (comma_list_loop n stop parsemethod elements) (pre @ comma # closing' # rest')
        = (Inr (ys, closing'), rest')"
proof (induction n arbitrary: elements pre)
  case 0
  then show ?case by (simp add: run_comma_list_loop_0)
next
  case (Suc n)
  from assms(1) Suc.prems(1) show ?case
  proof (cases rule: comma_list_loop_SucE)
    case (stop x t)
    from assms(2) stop(1) have "suffix (t # rest) (pre @ closing # rest)" by (rule consumingD)
    then have t: "t = closing"
      by (auto simp add: suffix_def append_eq_append_conv2 append_eq_Cons_conv Cons_eq_append_conv)
    from stop(1) t have "run parsemethod (pre @ (closing # rest)) = (Inr x, closing # rest)" by simp
    with assms(3) have "run parsemethod (pre @ (comma # closing' # rest'))
        = (Inr x, comma # closing' # rest')"
      by (rule local_parserD) (simp_all add: assms(4,6))
    with stop(3) assms(1,5,6,7) show ?thesis
      by (auto simp add: run_comma_list_loop_Suc info_def)
  next
    case (comma_stop x t t')
    from assms(2) comma_stop(1) have "suffix (t # t' # rest) (pre @ closing # rest)"
      by (rule consumingD)
    then have "pre = butlast pre @ [t]"
      by (auto simp add: suffix_def append_eq_append_conv2 append_eq_Cons_conv Cons_eq_append_conv)
    then have "last pre = t" by (metis last_snoc)
    with comma_stop(3) Suc.prems(3) show ?thesis by simp
  next
    case (again x t t' ts')
    from assms(1,2) again(5) have st: "strict_suffix rest (t' # ts')"
      by (rule comma_list_loop_consuming)
    then obtain ws where ws: "t' # ts' = ws @ rest" "ws \<noteq> []"
      by (auto simp add: strict_suffix_def suffix_def)
    from assms(2) again(1) have "suffix (t # t' # ts') (pre @ closing # rest)" by (rule consumingD)
    with ws obtain zs where z: "pre @ [closing] = zs @ t # ws"
      by (auto simp add: suffix_def)
    from ws(2) obtain pre2 where w: "ws = pre2 @ [last ws]" by (metis append_butlast_last_id)
    with z have c: "last ws = closing" and p: "pre = zs @ t # pre2"
      by (metis append_assoc append_Cons last_snoc butlast_snoc)+
    have pre2: "pre2 \<noteq> []"
    proof
      assume "pre2 = []"
      with p have "last pre = t" by simp
      with again(3) Suc.prems(3) show False by simp
    qed
    with p have l2: "last pre2 = last pre" by simp
    from ws w c have ts: "t' # ts' = pre2 @ closing # rest" by simp
    from again(1) p ts have "run parsemethod (zs @ (t # pre2 @ closing # rest))
        = (Inr x, t # pre2 @ closing # rest)" by simp
    with assms(3) have "run parsemethod (zs @ (t # pre2 @ comma # closing' # rest'))
        = (Inr x, t # pre2 @ comma # closing' # rest')"
      by (rule local_parserD) (simp_all add: assms(4) again(3))
    moreover from again(5) ts pre2 l2 Suc.prems(3)
    have "run (comma_list_loop n stop parsemethod (elements @ [x])) (pre2 @ comma # closing' # rest')
        = (Inr (ys, closing'), rest')"
      by (intro Suc.IH) simp_all
    moreover from ts pre2 obtain pre3 where "pre2 = t' # pre3" by (cases pre2) auto
    ultimately show ?thesis
      using p again(2,3,4) assms(1) by (auto simp add: run_comma_list_loop_Suc info_def)
  qed
qed

lemma parse_comma_list_trailing_comma:
  assumes "on_pending parsemethod" "consuming (run parsemethod)" "local_parser Q (run parsemethod)"
    and "\<And>t. info t = (''OP'', '','') \<Longrightarrow> Q t" and "stop \<noteq> '',''"
    and "info comma = (''OP'', '','')" and "info closing' = (''OP'', stop)"
    and "run (parse_comma_list n stop parsemethod) (pre @ closing # rest) = (Inr (ys, tk), rest)"
    and "pre \<noteq> []" and "info (last pre) \<noteq> (''OP'', '','')"
  shows "run (parse_comma_list n stop parsemethod) (pre @ comma # closing' # rest')
    = (Inr (ys, closing'), rest')"
  using assms(1,8)
proof (cases rule: parse_comma_listE)
  case (empty t)
  with assms(9) show ?thesis by (cases pre) auto
next
  case (elements t ts)
  with assms(9) obtain pre' where p: "pre = t # pre'" by (cases pre) auto
  from assms(1-7) elements(3) assms(9,10)
  have "run (comma_list_loop n stop parsemethod []) (pre @ comma # closing' # rest')
      = (Inr (ys, closing'), rest')"
    by (rule comma_list_loop_trailing_comma)
  with p elements(2) assms(1) show ?thesis by (simp add: run_parse_comma_list)
qed

lemma run_type_and_name:
  "run type_and_name l =
     (case l of
        [] \<Rightarrow> (Inl EOFError, [])
      | t1 # ts \<Rightarrow>
          if token_kind t1 \<noteq> ''NAME'' then (Inl (AssertionError_token t1), l)
          else if token_value t1 \<in> KEYWORDS then (Inl (AssertionError_keyword (token_value t1)), ts)
          else (case ts of
                  [] \<Rightarrow> (Inl EOFError, [])
                | t2 # ts' \<Rightarrow>
                    if token_kind t2 \<noteq> ''NAME'' then (Inl (AssertionError_token t2), ts)
                    else if token_value t2 \<in> KEYWORDS
                    then (Inl (AssertionError_keyword (token_value t2)), ts')
                    else (Inr (Name (token_value t1) (token_start t1) (token_end t1),
                            token_value t2), ts')))"
proof (cases l)
  case Nil
  then show ?thesis
    by (simp add: type_and_name_def run_and_then on_pending_intros run_parse_name and_then_def)
next
  case (Cons t1 ts)
  then show ?thesis
    by (cases ts)
       (simp_all add: type_and_name_def run_and_then on_pending_intros run_parse_name and_then_def
          run_case_option run_return_value)
qed

lemma type_and_nameE:
  assumes "run type_and_name l = (Inr x, v)"
  obtains t1 t2 where "l = t1 # t2 # v" "\<And>l'. run type_and_name (t1 # t2 # l') = (Inr x, l')"
proof -
  from assms obtain t1 ts where l: "l = t1 # ts"
    by (cases l) (simp_all add: run_type_and_name)
  from assms l obtain t2 ts' where ts: "ts = t2 # ts'"
    by (cases ts) (simp_all add: run_type_and_name split: if_splits)
  from assms l ts have "ts' = v" "\<And>l'. run type_and_name (t1 # t2 # l') = (Inr x, l')"
    by (auto simp add: run_type_and_name split: if_splits)
  with l ts that show thesis by blast
qed

lemma consuming_type_and_name: "consuming (run type_and_name)"
  unfolding consuming_def
proof (intro allI impI)
  fix l :: "'a token list" and x v
  assume "run type_and_name l = (Inr x, v)"
  then show "suffix v l"
    by (cases rule: type_and_nameE) (auto simp add: suffix_def)
qed

lemma local_type_and_name: "local_parser (\<lambda>t. True) (run type_and_name)"
  unfolding local_parser_def
proof (intro allI impI)
  fix pre s s' :: "'a token list" and x
  assume "run type_and_name (pre @ s) = (Inr x, s)"
  then show "run type_and_name (pre @ s') = (Inr x, s')"
  proof (cases rule: type_and_nameE)
    case (1 t1 t2)
    from 1(1) have "pre @ s = [t1, t2] @ s" by simp
    then have "pre = [t1, t2]" by (simp only: append_same_eq)
    with 1(2) show ?thesis by simp
  qed
qed

section \<open>A counter that is always enough\<close>

text \<open>
  Every recursive call and every round of a loop of the parser comes after a token was
  consumed, or after a bounded number of calls that consume none. So a counter larger
  than the number of pending tokens is enough for an expression, and one larger by three
  is enough for a file: the parser returns, or raises one of its own exceptions, on every
  sequence of tokens.
\<close>

named_theorems enough_fuel_intros
named_theorems eats_intros

lemma enough_fuelD: "enough_fuel k p \<Longrightarrow> length (pending c) < k \<Longrightarrow> fst (p c) \<noteq> Inl OutOfFuel"
  by (simp add: enough_fuel_def)

lemma eatsD: "eats d p \<Longrightarrow> p c = (Inr x, c') \<Longrightarrow> length (pending c') + d \<le> length (pending c)"
  by (simp add: eats_def)

lemma enough_fuel_mono: "enough_fuel k p \<Longrightarrow> j \<le> k \<Longrightarrow> enough_fuel j p"
  by (simp add: enough_fuel_def)

lemma eats_mono: "eats d p \<Longrightarrow> d' \<le> d \<Longrightarrow> eats d' p"
  by (fastforce simp add: eats_def)

lemma enough_fuel_0: "enough_fuel 0 p"
  by (simp add: enough_fuel_def)

lemma enough_fuel_and_then:
  assumes "enough_fuel k p" "eats d p" "\<And>x. enough_fuel (k - d) (f x)"
  shows "enough_fuel k (and_then p f)"
  unfolding enough_fuel_def
proof (intro allI impI)
  fix c :: "'a cursor"
  assume k: "length (pending c) < k"
  obtain r c' where p: "p c = (r, c')" by (cases "p c")
  show "fst (and_then p f c) \<noteq> Inl OutOfFuel"
  proof (cases r)
    case (Inl e)
    from assms(1) k have "fst (p c) \<noteq> Inl OutOfFuel" by (rule enough_fuelD)
    with p Inl show ?thesis by (simp add: and_then_def)
  next
    case (Inr x)
    with p assms(2) have "length (pending c') + d \<le> length (pending c)" by (simp add: eatsD)
    with k have "length (pending c') < k - d" by simp
    with assms(3) have "fst (f x c') \<noteq> Inl OutOfFuel" by (rule enough_fuelD)
    with p Inr show ?thesis by (simp add: and_then_def)
  qed
qed

lemma eats_and_then:
  assumes "eats d1 p" "\<And>x. eats d2 (f x)"
  shows "eats (d1 + d2) (and_then p f)"
  unfolding eats_def
proof (intro allI impI)
  fix c :: "'a cursor" and y c''
  assume a: "and_then p f c = (Inr y, c'')"
  obtain r c' where p: "p c = (r, c')" by (cases "p c")
  show "length (pending c'') + (d1 + d2) \<le> length (pending c)"
  proof (cases r)
    case (Inl e)
    with a p show ?thesis by (simp add: and_then_def)
  next
    case (Inr x)
    with p assms(1) have "length (pending c') + d1 \<le> length (pending c)" by (simp add: eatsD)
    moreover from a p Inr have "f x c' = (Inr y, c'')" by (simp add: and_then_def)
    with assms(2) have "length (pending c'') + d2 \<le> length (pending c')" by (rule eatsD)
    ultimately show ?thesis by simp
  qed
qed

lemma eats_first: "eats d p \<Longrightarrow> (\<And>x. eats 0 (f x)) \<Longrightarrow> eats d (and_then p f)"
  using eats_and_then [of d p 0 f] by simp

lemma eats_later: "eats 0 p \<Longrightarrow> (\<And>x. eats d (f x)) \<Longrightarrow> eats d (and_then p f)"
  using eats_and_then [of 0 p d f] by simp

lemma eats_0: "eats d p \<Longrightarrow> eats 0 p"
  by (erule eats_mono) simp

lemma enough_fuel_return_value [enough_fuel_intros]: "enough_fuel k (return_value x)"
  by (simp add: enough_fuel_def return_value_def)

lemma enough_fuel_raise [enough_fuel_intros]: "e \<noteq> OutOfFuel \<Longrightarrow> enough_fuel k (raise e)"
  by (simp add: enough_fuel_def raise_def)

lemma enough_fuel_if [enough_fuel_intros]:
  "(b \<Longrightarrow> enough_fuel k p) \<Longrightarrow> (\<not> b \<Longrightarrow> enough_fuel k q) \<Longrightarrow> enough_fuel k (if b then p else q)"
  by simp

lemma enough_fuel_case_option [enough_fuel_intros]:
  "(v = None \<Longrightarrow> enough_fuel k p) \<Longrightarrow> (\<And>x. v = Some x \<Longrightarrow> enough_fuel k (q x))
    \<Longrightarrow> enough_fuel k (case v of None \<Rightarrow> p | Some x \<Rightarrow> q x)"
  by (cases v) simp_all

lemma enough_fuel_case_prod [enough_fuel_intros]:
  "(\<And>a b. enough_fuel k (f a b)) \<Longrightarrow> enough_fuel k (case x of (a, b) \<Rightarrow> f a b)"
  by (cases x) simp

lemma eats_return_value [eats_intros]: "eats 0 (return_value x)"
  by (simp add: eats_def return_value_def)

lemma eats_raise [eats_intros]: "eats d (raise e)"
  by (simp add: eats_def raise_def)

lemma eats_if [eats_intros]:
  "(b \<Longrightarrow> eats d p) \<Longrightarrow> (\<not> b \<Longrightarrow> eats d q) \<Longrightarrow> eats d (if b then p else q)"
  by simp

lemma eats_case_option [eats_intros]:
  "(v = None \<Longrightarrow> eats d p) \<Longrightarrow> (\<And>x. v = Some x \<Longrightarrow> eats d (q x))
    \<Longrightarrow> eats d (case v of None \<Rightarrow> p | Some x \<Rightarrow> q x)"
  by (cases v) simp_all

lemma eats_case_prod [eats_intros]:
  "(\<And>a b. eats d (f a b)) \<Longrightarrow> eats d (case x of (a, b) \<Rightarrow> f a b)"
  by (cases x) simp

lemma eats_coming_up [eats_intros]: "eats 0 (coming_up n)"
  unfolding eats_def
proof (intro allI impI)
  fix c :: "'a cursor" and x c'
  assume "coming_up n c = (Inr x, c')"
  then have "snd (coming_up n c) = c'" by simp
  then show "length (pending c') + 0 \<le> length (pending c)"
    using coming_up_pending [of n c] by simp
qed

lemma enough_fuel_coming_up [enough_fuel_intros]: "1 \<le> n \<Longrightarrow> enough_fuel k (coming_up n)"
  by (simp add: enough_fuel_def coming_up_result)

lemma eats_pop: "eats 1 pop"
  unfolding eats_def
proof (intro allI impI)
  fix c :: "'a cursor" and x c'
  assume a: "pop c = (Inr x, c')"
  then have "fst (pop c) = Inr x" "snd (pop c) = c'" by simp_all
  then show "length (pending c') + 1 \<le> length (pending c)"
    using pop_result [of c] pop_pending [of c] by (cases "pending c") auto
qed

lemma enough_fuel_pop [enough_fuel_intros]: "enough_fuel k pop"
  by (simp add: enough_fuel_def pop_result split: list.splits)

lemma enough_fuel_and_then_0 [enough_fuel_intros]:
  "enough_fuel k p \<Longrightarrow> eats 0 p \<Longrightarrow> (\<And>x. enough_fuel k (f x)) \<Longrightarrow> enough_fuel k (and_then p f)"
  using enough_fuel_and_then [of k p 0 f] by simp

lemma enough_fuel_and_then_1:
  "enough_fuel k p \<Longrightarrow> eats 1 p \<Longrightarrow> (\<And>x. enough_fuel (k - 1) (f x)) \<Longrightarrow> enough_fuel k (and_then p f)"
  by (rule enough_fuel_and_then)

lemma eats_and_then_0 [eats_intros]:
  "eats 0 p \<Longrightarrow> (\<And>x. eats 0 (f x)) \<Longrightarrow> eats 0 (and_then p f)"
  by (rule eats_later)

lemmas eats_pop_0 [eats_intros] = eats_0 [OF eats_pop]

lemma enough_fuel_check_and_pop [enough_fuel_intros]: "enough_fuel k (check_and_pop kind val)"
  unfolding check_and_pop_def by (intro enough_fuel_intros eats_intros) simp_all

lemma eats_check_and_pop: "eats 1 (check_and_pop kind val)"
  unfolding check_and_pop_def
  by (intro eats_later eats_intros eats_pop)

lemmas eats_check_and_pop_0 [eats_intros] = eats_0 [OF eats_check_and_pop]

named_theorems strict_intros

lemmas enough_fuel_after_pop [strict_intros] =
  enough_fuel_and_then_1 [OF enough_fuel_pop eats_pop]

lemmas enough_fuel_after_check_and_pop [strict_intros] =
  enough_fuel_and_then_1 [OF enough_fuel_check_and_pop eats_check_and_pop]

lemma enough_fuel_parse_name [enough_fuel_intros]: "enough_fuel k (parse_name b)"
  unfolding parse_name_def by (intro strict_intros enough_fuel_intros) simp_all

lemma eats_parse_name: "eats 1 (parse_name b)"
  unfolding parse_name_def by (rule eats_first, rule eats_check_and_pop) (intro eats_intros)

lemma enough_fuel_parse_string [enough_fuel_intros]: "enough_fuel k parse_string"
  unfolding parse_string_def by (intro strict_intros enough_fuel_intros)

lemma eats_parse_string: "eats 1 parse_string"
  unfolding parse_string_def by (rule eats_first, rule eats_check_and_pop) (intro eats_intros)

lemma enough_fuel_parse_integer [enough_fuel_intros]: "enough_fuel k parse_integer"
  unfolding parse_integer_def by (intro strict_intros enough_fuel_intros) simp_all

lemma eats_parse_integer: "eats 1 parse_integer"
  unfolding parse_integer_def by (rule eats_first, rule eats_check_and_pop) (intro eats_intros)

lemmas eats_parse_name_0 [eats_intros] = eats_0 [OF eats_parse_name]

lemmas enough_fuel_after_parse_name [strict_intros] =
  enough_fuel_and_then_1 [OF enough_fuel_parse_name eats_parse_name]

lemma enough_fuel_type_and_name [enough_fuel_intros]: "enough_fuel k type_and_name"
  unfolding type_and_name_def by (intro strict_intros enough_fuel_intros) simp_all

lemma eats_type_and_name: "eats 1 type_and_name"
  unfolding type_and_name_def by (rule eats_first, rule eats_parse_name) (intro eats_intros)

lemmas eats_type_and_name_0 [eats_intros] = eats_0 [OF eats_type_and_name]

lemmas enough_fuel_after_type_and_name [strict_intros] =
  enough_fuel_and_then_1 [OF enough_fuel_type_and_name eats_type_and_name]


lemma eats_comma_list_loop:
  "eats 0 pm \<Longrightarrow> eats 0 (comma_list_loop n stop pm els)"
proof (induction n arbitrary: els)
  case 0
  show ?case unfolding comma_list_loop.simps by (rule eats_raise)
next
  case (Suc n)
  show ?case unfolding comma_list_loop.simps
    by (intro eats_intros Suc)
qed

lemma eats_parse_comma_list [eats_intros]:
  "eats 0 pm \<Longrightarrow> eats 0 (parse_comma_list n stop pm)"
  unfolding parse_comma_list_def by (intro eats_intros eats_comma_list_loop)

lemma enough_fuel_comma_list_loop:
  "enough_fuel k pm \<Longrightarrow> eats 0 pm \<Longrightarrow> j \<le> k \<Longrightarrow> j \<le> n
    \<Longrightarrow> enough_fuel j (comma_list_loop n stop pm els)"
proof (induction n arbitrary: j els)
  case 0
  then show ?case by (simp add: enough_fuel_0)
next
  case (Suc n)
  from Suc.prems(1,3) have pm: "enough_fuel j pm" by (rule enough_fuel_mono)
  have again: "enough_fuel (j - 1) (comma_list_loop n stop pm els')" for els'
    using Suc.prems by (intro Suc.IH) simp_all
  show ?case unfolding comma_list_loop.simps
    by (intro strict_intros enough_fuel_intros eats_intros pm Suc.prems(2) again) simp_all
qed

lemma enough_fuel_parse_comma_list:
  "enough_fuel k pm \<Longrightarrow> eats 0 pm \<Longrightarrow> j \<le> k \<Longrightarrow> j \<le> n
    \<Longrightarrow> enough_fuel j (parse_comma_list n stop pm)"
  unfolding parse_comma_list_def
  by (intro strict_intros enough_fuel_intros eats_intros enough_fuel_comma_list_loop) simp_all

lemma eats_expression:
  "eats 1 (parse_expression n :: 'pos cursor \<Rightarrow> _)
    \<and> (\<forall>r. eats 0 (parse_expression_loop n r :: 'pos cursor \<Rightarrow> _))"
proof (induction n)
  case 0
  show ?case by (simp add: parse_expression.simps parse_expression_loop.simps eats_raise)
next
  case (Suc n)
  from Suc have e: "eats 0 (parse_expression n :: 'pos cursor \<Rightarrow> _)" by (blast intro: eats_0)
  from Suc have l: "eats 0 (parse_expression_loop n r :: 'pos cursor \<Rightarrow> _)" for r by blast
  have "eats 1 (parse_expression (Suc n) :: 'pos cursor \<Rightarrow> _)"
    unfolding parse_expression.simps
    apply (rule eats_later, rule eats_coming_up)
    apply (rule eats_first)
     apply (intro eats_if eats_raise eats_parse_name eats_parse_string eats_parse_integer)
    apply (rule l)
    done
  moreover have "eats 0 (parse_expression_loop (Suc n) r :: 'pos cursor \<Rightarrow> _)" for r
    unfolding parse_expression_loop.simps
    by (intro eats_intros e l)
  ultimately show ?case by blast
qed

lemma eats_parse_expression: "eats 1 (parse_expression n)"
  using eats_expression by blast

lemmas eats_parse_expression_0 [eats_intros] = eats_0 [OF eats_parse_expression]

lemma eats_parse_expression_loop [eats_intros]: "eats 0 (parse_expression_loop n r)"
  using eats_expression by blast

lemma enough_fuel_expression:
  "(\<forall>j \<le> n. enough_fuel j (parse_expression n :: 'pos cursor \<Rightarrow> _))
    \<and> (\<forall>j \<le> n. \<forall>r. enough_fuel j (parse_expression_loop n r :: 'pos cursor \<Rightarrow> _))"
proof (induction n)
  case 0
  show ?case by (simp add: enough_fuel_0)
next
  case (Suc n)
  from Suc have e: "enough_fuel n (parse_expression n :: 'pos cursor \<Rightarrow> _)" by blast
  from Suc have l: "j \<le> n \<Longrightarrow> enough_fuel j (parse_expression_loop n r :: 'pos cursor \<Rightarrow> _)"
    for j r by blast
  have c: "j \<le> n \<Longrightarrow> enough_fuel j (parse_comma_list n '')'' (parse_expression n :: 'pos cursor \<Rightarrow> _))"
    for j
    using e eats_parse_expression_0 by (rule enough_fuel_parse_comma_list) simp_all
  have "enough_fuel j (parse_expression (Suc n) :: 'pos cursor \<Rightarrow> _)" if "j \<le> Suc n" for j
  proof -
    have a: "enough_fuel (j - 1) (parse_expression_loop n r :: 'pos cursor \<Rightarrow> _)" for r
      using that by (intro l) simp
    show ?thesis
      unfolding parse_expression.simps
      apply (rule enough_fuel_and_then_0)
        apply (rule enough_fuel_coming_up)
        apply simp
       apply (rule eats_coming_up)
      apply (rule enough_fuel_and_then_1)
        apply (intro enough_fuel_intros)
        apply simp
       apply (intro eats_if eats_raise eats_parse_name eats_parse_string eats_parse_integer)
      apply (rule a)
      done
  qed
  moreover have "enough_fuel j (parse_expression_loop (Suc n) r :: 'pos cursor \<Rightarrow> _)"
    if "j \<le> Suc n" for j r
    unfolding parse_expression_loop.simps
    using that by (intro strict_intros enough_fuel_intros eats_intros c l) simp_all
  ultimately show ?case by blast
qed

lemma enough_fuel_parse_expression: "j \<le> n \<Longrightarrow> enough_fuel j (parse_expression n)"
  using enough_fuel_expression by blast


lemmas enough_fuel_after_parse_expression [strict_intros] =
  enough_fuel_and_then_1 [OF _ eats_parse_expression]

lemma eats_parse_expression_statement: "eats 1 (parse_expression_statement n)"
  unfolding parse_expression_statement_def
  by (rule eats_first, rule eats_parse_expression) (intro eats_intros)

lemma eats_assignment: "eats 1 (assignment n)"
  unfolding assignment_def
  by (rule eats_first, rule eats_parse_name) (intro eats_intros)

lemma eats_parse_declaration: "eats 1 (parse_declaration n)"
  unfolding parse_declaration_def
  by (rule eats_first, rule eats_type_and_name) (intro eats_intros)

lemma eats_parse_return: "eats 1 (parse_return n)"
  unfolding parse_return_def
  by (rule eats_first, rule eats_check_and_pop) (intro eats_intros)

lemma enough_fuel_parse_expression_statement:
  "j \<le> n \<Longrightarrow> enough_fuel j (parse_expression_statement n)"
  unfolding parse_expression_statement_def
  by (intro strict_intros enough_fuel_intros eats_intros enough_fuel_parse_expression) simp_all

lemma enough_fuel_assignment: "j \<le> n \<Longrightarrow> enough_fuel j (assignment n)"
  unfolding assignment_def
  by (intro strict_intros enough_fuel_intros eats_intros enough_fuel_parse_expression) simp_all

lemma enough_fuel_parse_declaration: "j \<le> n \<Longrightarrow> enough_fuel j (parse_declaration n)"
  unfolding parse_declaration_def
  by (intro strict_intros enough_fuel_intros eats_intros enough_fuel_parse_expression) simp_all

lemma enough_fuel_parse_return: "j \<le> n \<Longrightarrow> enough_fuel j (parse_return n)"
  unfolding parse_return_def
  by (intro strict_intros enough_fuel_intros eats_intros enough_fuel_parse_expression) simp_all

lemmas statement_simps = parse_statement.simps parse_if.simps parse_if_loop.simps
  parse_function_def.simps parse_function_def_loop.simps

lemma eats_statement:
  "eats 1 (parse_statement n :: 'pos cursor \<Rightarrow> _)
    \<and> eats 1 (parse_if n :: 'pos cursor \<Rightarrow> _)
    \<and> (\<forall>body. eats 0 (parse_if_loop n body :: 'pos cursor \<Rightarrow> _))
    \<and> eats 1 (parse_function_def n :: 'pos cursor \<Rightarrow> _)
    \<and> (\<forall>body. eats 0 (parse_function_def_loop n body :: 'pos cursor \<Rightarrow> _))"
proof (induction n)
  case 0
  show ?case by (simp add: statement_simps eats_raise)
next
  case (Suc n)
  from Suc have s: "eats 0 (parse_statement n :: 'pos cursor \<Rightarrow> _)" by (blast intro: eats_0)
  from Suc have i: "eats 1 (parse_if n :: 'pos cursor \<Rightarrow> _)" by blast
  from Suc have il: "eats 0 (parse_if_loop n body :: 'pos cursor \<Rightarrow> _)" for body by blast
  from Suc have f: "eats 1 (parse_function_def n :: 'pos cursor \<Rightarrow> _)" by blast
  from Suc have fl: "eats 0 (parse_function_def_loop n body :: 'pos cursor \<Rightarrow> _)" for body
    by blast
  have "eats 1 (parse_statement (Suc n) :: 'pos cursor \<Rightarrow> _)"
    unfolding parse_statement.simps
    by (intro eats_later eats_if eats_coming_up i f eats_parse_return eats_assignment
        eats_parse_declaration eats_parse_expression_statement)
  moreover have "eats 1 (parse_if (Suc n) :: 'pos cursor \<Rightarrow> _)"
    unfolding parse_if.simps
    by (rule eats_first, rule eats_check_and_pop) (intro eats_intros il)
  moreover have "eats 0 (parse_if_loop (Suc n) body :: 'pos cursor \<Rightarrow> _)" for body
    unfolding parse_if_loop.simps
    by (intro eats_intros eats_coming_up s il)
  moreover have "eats 1 (parse_function_def (Suc n) :: 'pos cursor \<Rightarrow> _)"
    unfolding parse_function_def.simps
    by (rule eats_first, rule eats_check_and_pop) (intro eats_intros eats_coming_up fl)
  moreover have "eats 0 (parse_function_def_loop (Suc n) body :: 'pos cursor \<Rightarrow> _)" for body
    unfolding parse_function_def_loop.simps
    by (intro eats_intros eats_coming_up s fl)
  ultimately show ?case by blast
qed

lemma eats_parse_statement: "eats 1 (parse_statement n)"
  using eats_statement by blast

lemma eats_parse_if_loop [eats_intros]: "eats 0 (parse_if_loop n body)"
  using eats_statement by blast

lemma eats_parse_function_def_loop [eats_intros]: "eats 0 (parse_function_def_loop n body)"
  using eats_statement by blast

lemmas enough_fuel_after_parse_statement [strict_intros] =
  enough_fuel_and_then_1 [OF _ eats_parse_statement]

lemma enough_fuel_statement:
  "(\<forall>j \<le> n - 1. enough_fuel j (parse_statement n :: 'pos cursor \<Rightarrow> _))
    \<and> (\<forall>j \<le> n. enough_fuel j (parse_if n :: 'pos cursor \<Rightarrow> _))
    \<and> (\<forall>j \<le> n - 2. \<forall>body. enough_fuel j (parse_if_loop n body :: 'pos cursor \<Rightarrow> _))
    \<and> (\<forall>j \<le> n. enough_fuel j (parse_function_def n :: 'pos cursor \<Rightarrow> _))
    \<and> (\<forall>j \<le> n - 2. \<forall>body. enough_fuel j (parse_function_def_loop n body :: 'pos cursor \<Rightarrow> _))"
proof (induction n)
  case 0
  show ?case by (simp add: enough_fuel_0)
next
  case (Suc n)
  from Suc have s: "j \<le> n - 1 \<Longrightarrow> enough_fuel j (parse_statement n :: 'pos cursor \<Rightarrow> _)" for j
    by blast
  from Suc have i: "j \<le> n \<Longrightarrow> enough_fuel j (parse_if n :: 'pos cursor \<Rightarrow> _)" for j by blast
  from Suc have il: "j \<le> n - 2 \<Longrightarrow> enough_fuel j (parse_if_loop n body :: 'pos cursor \<Rightarrow> _)"
    for j body by blast
  from Suc have f: "j \<le> n \<Longrightarrow> enough_fuel j (parse_function_def n :: 'pos cursor \<Rightarrow> _)" for j
    by blast
  from Suc have fl:
    "j \<le> n - 2 \<Longrightarrow> enough_fuel j (parse_function_def_loop n body :: 'pos cursor \<Rightarrow> _)"
    for j body by blast
  have c: "enough_fuel j (parse_comma_list n '')'' (type_and_name :: 'pos cursor \<Rightarrow> _))"
    if "j \<le> n" for j
    using enough_fuel_type_and_name eats_type_and_name_0 order_refl that
    by (rule enough_fuel_parse_comma_list)
  have "enough_fuel j (parse_statement (Suc n) :: 'pos cursor \<Rightarrow> _)" if "j \<le> Suc n - 1" for j
    unfolding parse_statement.simps
    using that
    by (intro enough_fuel_intros eats_intros eats_coming_up i f enough_fuel_parse_return
        enough_fuel_assignment enough_fuel_parse_declaration
        enough_fuel_parse_expression_statement) simp_all
  moreover have "enough_fuel j (parse_if (Suc n) :: 'pos cursor \<Rightarrow> _)" if "j \<le> Suc n" for j
    unfolding parse_if.simps
    using that
    by (intro strict_intros enough_fuel_intros eats_intros enough_fuel_parse_expression il)
      simp_all
  moreover have "enough_fuel j (parse_if_loop (Suc n) body :: 'pos cursor \<Rightarrow> _)"
    if "j \<le> Suc n - 2" for j body
    unfolding parse_if_loop.simps
    using that
    by (intro strict_intros enough_fuel_intros eats_intros eats_coming_up s il) simp_all
  moreover have "enough_fuel j (parse_function_def (Suc n) :: 'pos cursor \<Rightarrow> _)"
    if "j \<le> Suc n" for j
    unfolding parse_function_def.simps
    using that
    by (intro strict_intros enough_fuel_intros eats_intros eats_coming_up c fl) simp_all
  moreover have "enough_fuel j (parse_function_def_loop (Suc n) body :: 'pos cursor \<Rightarrow> _)"
    if "j \<le> Suc n - 2" for j body
    unfolding parse_function_def_loop.simps
    using that
    by (intro strict_intros enough_fuel_intros eats_intros eats_coming_up s fl) simp_all
  ultimately show ?case by blast
qed

lemma enough_fuel_parse_statement: "j \<le> n - 1 \<Longrightarrow> enough_fuel j (parse_statement n)"
  using enough_fuel_statement by blast


lemma parse_file_enough_fuel:
  "length (pending c) + 2 < n \<Longrightarrow> snd (fst (parse_file n c)) \<noteq> Some OutOfFuel"
proof (induction n arbitrary: c)
  case 0
  then show ?case by simp
next
  case (Suc n)
  obtain r c1 where u: "coming_up 1 c = (r, c1)" by (cases "coming_up 1 c")
  have p1: "pending c1 = pending c" using coming_up_pending [of 1 c] u by simp
  show ?case
  proof (cases r)
    case (Inl e)
    have "fst (coming_up 1 c) \<noteq> Inl OutOfFuel" by (simp add: coming_up_result)
    with u Inl have "e \<noteq> OutOfFuel" by simp
    with u Inl show ?thesis by simp
  next
    case (Inr t)
    obtain r2 c2 where s: "parse_statement n c1 = (r2, c2)" by (cases "parse_statement n c1")
    have "enough_fuel (n - 1) (parse_statement n :: 'a cursor \<Rightarrow> _)"
      by (rule enough_fuel_parse_statement) simp
    moreover have "length (pending c1) < n - 1" using Suc.prems p1 by simp
    ultimately have ne: "fst (parse_statement n c1) \<noteq> Inl OutOfFuel" by (rule enough_fuelD)
    show ?thesis
    proof (cases r2)
      case (Inl e)
      with ne s have "e \<noteq> OutOfFuel" by simp
      with u \<open>r = Inr t\<close> s Inl show ?thesis by simp
    next
      case (Inr st)
      with s have "parse_statement n c1 = (Inr st, c2)" by simp
      with eats_parse_statement have "length (pending c2) + 1 \<le> length (pending c1)"
        by (rule eatsD)
      with Suc.prems p1 have "length (pending c2) + 2 < n" by simp
      then have "snd (fst (parse_file n c2)) \<noteq> Some OutOfFuel" by (rule Suc.IH)
      moreover obtain ss r3 c3 where "parse_file n c2 = ((ss, r3), c3)"
        by (cases "parse_file n c2") auto
      ultimately show ?thesis using u \<open>r = Inr t\<close> s Inr by simp
    qed
  qed
qed

lemma parse_file_fuel_irrelevant:
  assumes "snd (fst (parse_file n1 c)) \<noteq> Some OutOfFuel"
    and "snd (fst (parse_file n2 c)) \<noteq> Some OutOfFuel"
  shows "parse_file n1 c = parse_file n2 c"
proof (cases "n1 \<le> n2")
  case True
  then obtain k where "n2 = n1 + k" by (auto simp add: le_iff_add)
  with parse_file_more_fuel_add [OF assms(1), of k] show ?thesis by simp
next
  case False
  then have "n2 \<le> n1" by simp
  then obtain k where "n1 = n2 + k" by (auto simp add: le_iff_add)
  with parse_file_more_fuel_add [OF assms(2), of k] show ?thesis by simp
qed

lemma parse_file_on_fresh_cursor:
  "fst (parse_file n c) = fst (parse n (pending c))"
proof -
  have "fst (parse_file n c) = fst (run (parse_file n) (pending c))"
    by (rule fst_on_pending) (rule on_pending_parse_file)
  then show ?thesis by (simp add: run_def observe_def parse_def)
qed

section \<open>The claims\<close>

subsection \<open>C1: the span of a statement\<close>

text \<open>
  Claim C1 says that the node of a statement starts where its first token starts and
  ends where its last token ends, and names the declaration with an initializer: its
  \<^verbatim>\<open>end\<close> should be the end of the closing semicolon. \<^verbatim>\<open>parse_declaration\<close> binds
  \<^verbatim>\<open>semicolon\<close> in both branches, as \<^verbatim>\<open>assignment\<close> and \<^verbatim>\<open>parse_return\<close> do, and then
  builds the node from \<^verbatim>\<open>third_thing.end\<close>. For \<^verbatim>\<open>Int a = 1;\<close>, at any positions, the
  declaration therefore ends at \<open>e3\<close>, the end of \<^verbatim>\<open>=\<close>, and not at \<open>e5\<close>, the end of the
  semicolon.
\<close>

theorem declaration_with_initializer_span:
  "fst (parse (Suc (Suc (Suc (Suc n))))
     [Token ''NAME'' ''Int'' s1 e1, Token ''NAME'' ''a'' s2 e2, Token ''OP'' ''='' s3 e3,
      Token ''INTEGER'' ''1'' s4 e4, Token ''OP'' '';'' s5 e5])
     = ([Declaration (Name ''Int'' s1 e1) ''a'' (Some (Integer 1 s4 e4)) s1 e3], None)"
  by (simp add: eval_simps)

theorem declaration_with_initializer_span_witness:
  "map node_end (fst (fst (parse (Suc (Suc (Suc (Suc 0))))
     [Token ''NAME'' ''Int'' (0::nat) 3, Token ''NAME'' ''a'' 4 5, Token ''OP'' ''='' 6 7,
      Token ''INTEGER'' ''1'' 8 9, Token ''OP'' '';'' 9 10]))) = [7]"
  using declaration_with_initializer_span [of 0 "0::nat" 3 4 5 6 7 8 9 9 10] by simp

subsection \<open>C2: \<^verbatim>\<open>if if {}\<close>\<close>

text \<open>
  Claim C2, as amended: parsing \<^verbatim>\<open>if if {}\<close> fails with the assertion of
  \<^verbatim>\<open>parse_name\<close> on the second \<^verbatim>\<open>if\<close> (\<^verbatim>\<open>ReservedKeywordUsed\<close>), at any positions and with
  any counter of at least four. The second \<^verbatim>\<open>if\<close> is a token of kind \<^verbatim>\<open>NAME\<close>, so
  \<^verbatim>\<open>parse_expression\<close> takes the branch of names and never reaches its
  \<^verbatim>\<open>raise ValueError\<close>.
\<close>

theorem if_if_reserved_keyword:
  "fst (parse (Suc (Suc (Suc (Suc n))))
     [Token ''NAME'' ''if'' s1 e1, Token ''NAME'' ''if'' s2 e2, Token ''OP'' ''{'' s3 e3,
      Token ''OP'' ''}'' s4 e4])
     = ([], Some (AssertionError_keyword ''if''))"
  by (simp add: eval_simps)

theorem if_if_reserved_keyword_witness:
  "fst (parse (Suc (Suc (Suc (Suc (Suc 0)))))
     [Token ''NAME'' ''if'' (1::nat) 3, Token ''NAME'' ''if'' 4 6, Token ''OP'' ''{'' 7 8,
      Token ''OP'' ''}'' 8 9])
     = ([], Some (AssertionError_keyword ''if''))"
  by (rule if_if_reserved_keyword)

text \<open>The claim as it was stated expects \<^verbatim>\<open>InvalidToken\<close> here and excludes
  \<^verbatim>\<open>ReservedKeywordUsed\<close>.\<close>

theorem if_if_is_not_invalid_token:
  "fst (parse (Suc (Suc (Suc (Suc 0))))
     [Token ''NAME'' ''if'' (0::nat) 2, Token ''NAME'' ''if'' 3 5, Token ''OP'' ''{'' 6 7,
      Token ''OP'' ''}'' 7 8])
     = ([], Some (AssertionError_keyword ''if''))"
  by (simp add: eval_simps)

subsection \<open>C3: the token before the body of a function\<close>

text \<open>
  Claim C3 says that any token other than \<^verbatim>\<open>{\<close> before the body of a function
  definition is refused with \<^verbatim>\<open>UnexpectedToken\<close>. The source comments the grammar as
  \<^verbatim>\<open>function main() { ... }\<close> and \<^verbatim>\<open>parse_if\<close> checks \<^verbatim>\<open>check_and_pop('OP', '{')\<close>, but
  \<^verbatim>\<open>parse_function_def\<close> calls \<^verbatim>\<open>check_and_pop('OP')\<close> with no value. So
  \<^verbatim>\<open>function f ( ) v }\<close> is accepted for every operator \<open>v\<close>, for example \<^verbatim>\<open>;\<close>.
\<close>

theorem function_def_before_body_any_op:
  "fst (parse (Suc (Suc (Suc (Suc n))))
     [Token ''NAME'' ''function'' s1 e1, Token ''NAME'' ''f'' s2 e2, Token ''OP'' ''('' s3 e3,
      Token ''OP'' '')'' s4 e4, Token ''OP'' v s5 e5, Token ''OP'' ''}'' s6 e6])
     = ([FunctionDef ''f'' [] None [] s1 e6], None)"
  by (simp add: eval_simps)

theorem function_def_before_body_any_op_witness:
  "fst (parse (Suc (Suc (Suc (Suc 0))))
     [Token ''NAME'' ''function'' (0::nat) 8, Token ''NAME'' ''f'' 9 10, Token ''OP'' ''('' 10 11,
      Token ''OP'' '')'' 11 12, Token ''OP'' '';'' 13 14, Token ''OP'' ''}'' 15 16])
     = ([FunctionDef ''f'' [] None [] 0 16], None)"
  by (rule function_def_before_body_any_op)

subsection \<open>C4: the name of a function\<close>

text \<open>
  Claim C4, as amended: \<^verbatim>\<open>parse_function_def\<close> parses the name of the function with
  \<^verbatim>\<open>parse_name()\<close>, whose keyword check is on by default. When the token after
  \<^verbatim>\<open>function\<close> is a \<^verbatim>\<open>NAME\<close> whose value is a keyword (\<^verbatim>\<open>return\<close> or \<^verbatim>\<open>if\<close>), the function
  definition, and the statement it is, fail with the assertion on that value
  (\<^verbatim>\<open>ReservedKeywordUsed\<close>), the name consumed and the rest untouched.
\<close>

theorem function_name_keyword_checked:
  assumes "pending c = Token ''NAME'' ''function'' s1 e1 # Token ''NAME'' v s2 e2 # rest"
    and "v \<in> KEYWORDS"
  shows "observe (parse_function_def (Suc n) c) = (Inl (AssertionError_keyword v), rest)
    \<and> observe (parse_statement (Suc (Suc n)) c) = (Inl (AssertionError_keyword v), rest)"
proof -
  have k: "v \<noteq> ''function''" using assms(2) by (auto simp add: KEYWORDS_def)
  have a: "observe (parse_function_def (Suc n) c) = run (parse_function_def (Suc n)) (pending c)"
    by (rule on_pendingD) (rule on_pending_intros)
  have b: "observe (parse_statement (Suc (Suc n)) c) = run (parse_statement (Suc (Suc n))) (pending c)"
    by (rule on_pendingD) (rule on_pending_intros)
  show ?thesis
    unfolding a b using assms k
    by (simp add: on_pending_intros run_simps run_statement_simps return_value_def raise_def)
qed

theorem function_name_keyword_checked_witness:
  "observe (parse_function_def (Suc 0)
      (new_cursor [Token ''NAME'' ''function'' (0::nat) 8, Token ''NAME'' ''return'' 9 15,
        Token ''OP'' ''('' 15 16]))
     = (Inl (AssertionError_keyword ''return''), [Token ''OP'' ''('' 15 16])
   \<and> observe (parse_statement (Suc (Suc 0))
      (new_cursor [Token ''NAME'' ''function'' (0::nat) 8, Token ''NAME'' ''return'' 9 15,
        Token ''OP'' ''('' 15 16]))
     = (Inl (AssertionError_keyword ''return''), [Token ''OP'' ''('' 15 16])"
  using function_name_keyword_checked [of
      "new_cursor [Token ''NAME'' ''function'' (0::nat) 8, Token ''NAME'' ''return'' 9 15,
        Token ''OP'' ''('' 15 16]" 0 8 "''return''" 9 15 "[Token ''OP'' ''('' 15 16]" 0]
  by (simp add: KEYWORDS_def)

text \<open>The claim as it was stated has the check bypassed; \<^verbatim>\<open>function if ( ) { }\<close> shows
  that it is not.\<close>

theorem function_named_if_is_rejected:
  "fst (parse (Suc (Suc (Suc 0)))
     [Token ''NAME'' ''function'' (0::nat) 8, Token ''NAME'' ''if'' 9 11, Token ''OP'' ''('' 11 12,
      Token ''OP'' '')'' 12 13, Token ''OP'' ''{'' 14 15, Token ''OP'' ''}'' 15 16])
     = ([], Some (AssertionError_keyword ''if''))"
  by (simp add: eval_simps)

subsection \<open>C5: a declaration cut short\<close>

text \<open>
  Claim C5: parsing \<^verbatim>\<open>Int a\<close> with nothing after it fails with \<^verbatim>\<open>EOFError\<close>
  (\<^verbatim>\<open>UnexpectedEndOfInput\<close>), at any positions and with any counter of at least two; no
  statement is yielded before.
\<close>

theorem truncated_declaration_eof:
  "fst (parse (Suc (Suc n)) [Token ''NAME'' ''Int'' s1 e1, Token ''NAME'' ''a'' s2 e2])
     = ([], Some EOFError)"
  by (simp add: eval_simps)

theorem truncated_declaration_eof_witness:
  "fst (parse (Suc (Suc 0)) [Token ''NAME'' ''Int'' (0::nat) 3, Token ''NAME'' ''a'' 4 5])
     = ([], Some EOFError)"
  by (rule truncated_declaration_eof)

subsection \<open>C10: the token between a variable and its initializer\<close>

text \<open>
  Claim C10, as amended: let the pending tokens be two \<^verbatim>\<open>NAME\<close> tokens, neither a
  keyword and the first not \<^verbatim>\<open>function\<close>, then an \<^verbatim>\<open>OP\<close> token whose value is not \<^verbatim>\<open>;\<close>,
  then tokens from which \<^verbatim>\<open>parse_expression\<close> parses \<open>e\<close> and stops before a semicolon.
  Then \<^verbatim>\<open>parse_declaration\<close> returns the declaration of the second name with the type
  of the first and the value \<open>e\<close>, consuming the semicolon, and \<^verbatim>\<open>parse_statement\<close>
  returns the same. The value of the \<^verbatim>\<open>OP\<close> token is never compared with \<^verbatim>\<open>=\<close>.
\<close>

theorem declaration_separator_any_op:
  assumes "pending c = t1 # t2 # t3 # rest"
    and "token_kind t1 = ''NAME''" and "token_value t1 \<notin> KEYWORDS"
    and "token_value t1 \<noteq> ''function''"
    and "token_kind t2 = ''NAME''" and "token_value t2 \<notin> KEYWORDS"
    and "token_kind t3 = ''OP''" and "token_value t3 \<noteq> '';''"
    and "run (parse_expression n) rest = (Inr e, semicolon # rest')"
    and "info semicolon = (''OP'', '';'')"
  shows "observe (parse_declaration n c) =
      (Inr (Declaration (Name (token_value t1) (token_start t1) (token_end t1)) (token_value t2)
         (Some e) (token_start t1) (token_end t3)), rest')
    \<and> observe (parse_statement (Suc n) c) = observe (parse_declaration n c)"
proof -
  have d: "run (parse_declaration n) (t1 # t2 # t3 # rest) =
      (Inr (Declaration (Name (token_value t1) (token_start t1) (token_end t1)) (token_value t2)
         (Some e) (token_start t1) (token_end t3)), rest')"
    using assms(2-)
    by (simp add: parse_declaration_def type_and_name_def on_pending_intros run_simps info_def)
  have k: "token_value t1 \<noteq> ''return''" "token_value t1 \<noteq> ''if''"
    using assms(3) by (auto simp add: KEYWORDS_def)
  have "run (parse_statement (Suc n)) (t1 # t2 # t3 # rest) =
      run (parse_declaration n) (t1 # t2 # t3 # rest)"
    using assms(2,4,5) k
    by (simp add: run_parse_statement_Suc info_def)
  moreover have "observe (parse_declaration n c) = run (parse_declaration n) (pending c)"
    by (rule on_pendingD) (rule on_pending_intros)
  moreover have "observe (parse_statement (Suc n) c) = run (parse_statement (Suc n)) (pending c)"
    by (rule on_pendingD) (rule on_pending_intros)
  ultimately show ?thesis
    using d assms(1) by simp
qed

theorem declaration_separator_any_op_witness:
  "observe (parse_declaration (Suc (Suc 0))
      (new_cursor [Token ''NAME'' ''Int'' (0::nat) 3, Token ''NAME'' ''a'' 4 5,
        Token ''OP'' '','' 6 7, Token ''INTEGER'' ''1'' 8 9, Token ''OP'' '';'' 9 10]))
     = (Inr (Declaration (Name ''Int'' 0 3) ''a'' (Some (Integer 1 8 9)) 0 7), [])
   \<and> observe (parse_statement (Suc (Suc (Suc 0)))
      (new_cursor [Token ''NAME'' ''Int'' (0::nat) 3, Token ''NAME'' ''a'' 4 5,
        Token ''OP'' '','' 6 7, Token ''INTEGER'' ''1'' 8 9, Token ''OP'' '';'' 9 10]))
     = (Inr (Declaration (Name ''Int'' 0 3) ''a'' (Some (Integer 1 8 9)) 0 7), [])"
proof -
  have e: "run (parse_expression (Suc (Suc 0)))
      [Token ''INTEGER'' ''1'' (8::nat) 9, Token ''OP'' '';'' 9 10]
    = (Inr (Integer 1 8 9), Token ''OP'' '';'' 9 10 # [])"
    by (simp add: eval_simps)
  show ?thesis
    using declaration_separator_any_op [of
        "new_cursor [Token ''NAME'' ''Int'' (0::nat) 3, Token ''NAME'' ''a'' 4 5,
          Token ''OP'' '','' 6 7, Token ''INTEGER'' ''1'' 8 9, Token ''OP'' '';'' 9 10]"
        "Token ''NAME'' ''Int'' 0 3" "Token ''NAME'' ''a'' 4 5" "Token ''OP'' '','' 6 7"
        "[Token ''INTEGER'' ''1'' 8 9, Token ''OP'' '';'' 9 10]" "Suc (Suc 0)"
        "Integer 1 8 9" "Token ''OP'' '';'' 9 10" "[]", OF _ _ _ _ _ _ _ _ e]
    by (simp add: KEYWORDS_def info_def)
qed

text \<open>The claim as it was stated covers every pair of \<^verbatim>\<open>NAME\<close> tokens; a keyword as the
  variable, as in \<^verbatim>\<open>Int if , 1 ;\<close>, is refused by \<^verbatim>\<open>parse_name\<close>.\<close>

theorem declaration_keyword_variable_rejected:
  "fst (parse (Suc (Suc (Suc 0)))
     [Token ''NAME'' ''Int'' (0::nat) 3, Token ''NAME'' ''if'' 4 6, Token ''OP'' '','' 7 8,
      Token ''INTEGER'' ''1'' 9 10, Token ''OP'' '';'' 10 11])
     = ([], Some (AssertionError_keyword ''if''))"
  by (simp add: eval_simps)

subsection \<open>C8: looking ahead without consuming\<close>

lemma consume_pending:
  "consume x c = (r, c') \<Longrightarrow> (case r of None \<Rightarrow> [] | Some t \<Rightarrow> [t]) @ pending c' = pending c"
proof (cases x)
  case Pop
  assume a: "consume x c = (r, c')"
  have "observe (pop c) = (case pending c of [] \<Rightarrow> (Inl StopIteration, []) | t # ts \<Rightarrow> (Inr t, ts))"
    by (rule observe_pop)
  with a Pop show ?thesis
    by (cases "pop c"; cases "fst (pop c)"; cases "pending c") (auto simp add: observe_def)
next
  case (Coming_up n)
  assume "consume x c = (r, c')"
  with Coming_up show ?thesis by (auto simp add: coming_up_pending)
next
  case Something_coming_up
  assume "consume x c = (r, c')"
  with Something_coming_up show ?thesis by (auto simp add: something_coming_up_pending)
next
  case (Check_and_pop kind val)
  assume a: "consume x c = (r, c')"
  have "observe (check_and_pop kind val c) = run (check_and_pop kind val) (pending c)"
    by (rule on_pendingD) (rule on_pending_check_and_pop)
  with a Check_and_pop show ?thesis
    by (cases "check_and_pop kind val c"; cases "fst (check_and_pop kind val c)"; cases "pending c")
       (auto simp add: observe_def run_check_and_pop split: if_splits option.splits)
qed

lemma interleave_pending:
  "interleave xs c = (consumed, c') \<Longrightarrow> consumed @ pending c' = pending c"
proof (induction xs arbitrary: c consumed c')
  case Nil
  then show ?case by simp
next
  case (Cons x xs)
  obtain r c1 where x: "consume x c = (r, c1)" by (cases "consume x c")
  note p = consume_pending [OF x]
  show ?case
  proof (cases r)
    case None
    with Cons x p show ?thesis by simp
  next
    case (Some t)
    obtain ts c2 where i: "interleave xs c1 = (ts, c2)" by (cases "interleave xs c1")
    from Cons.IH [OF i] Cons.prems x Some i p show ?thesis by auto
  qed
qed

lemma pops_pending:
  "pops k c = map Inr (take k (pending c)) @ replicate (k - length (pending c)) (Inl StopIteration)"
proof (induction k arbitrary: c)
  case 0
  show ?case by simp
next
  case (Suc k)
  show ?case
    by (cases "pending c") (simp_all add: Suc pop_result pop_pending)
qed

lemma coming_up_iterator:
  "iterator (snd (coming_up n c)) = drop (nat n - length (coming_up_stack c)) (iterator c)"
proof (induction n c rule: coming_up.induct)
  case (1 n c)
  show ?case
  proof (cases "int (length (coming_up_stack c)) < n")
    case False
    then have "nat n - length (coming_up_stack c) = 0" by linarith
    with False show ?thesis by (simp add: coming_up.simps [of n c])
  next
    case True
    show ?thesis
    proof (cases "iterator c")
      case Nil
      with True show ?thesis by (simp add: coming_up.simps [of n c])
    next
      case (Cons t ts)
      from True have "nat n - length (coming_up_stack c) = Suc (nat n - Suc (length (coming_up_stack c)))"
        by linarith
      with True Cons 1 show ?thesis
        by (simp add: coming_up.simps [of n c])
    qed
  qed
qed

lemma coming_up_again: "coming_up n (snd (coming_up n c)) = coming_up n c"
proof (induction n c rule: coming_up.induct)
  case (1 n c)
  show ?case
  proof (cases "int (length (coming_up_stack c)) < n")
    case False
    then show ?thesis by (simp add: coming_up.simps [of n c])
  next
    case True
    show ?thesis
    proof (cases "iterator c")
      case Nil
      with True show ?thesis by (simp add: coming_up.simps [of n c])
    next
      case (Cons t ts)
      with True 1 show ?thesis
        by (simp add: coming_up.simps [of n c])
    qed
  qed
qed

text \<open>
  Claim C8. Let \<open>c\<close> be the cursor after any sequence of calls on a fresh cursor over
  \<open>tokens\<close>, and \<open>consumed\<close> the tokens those calls handed out. Then \<open>consumed\<close> followed
  by the pending tokens of \<open>c\<close> is \<open>tokens\<close>: nothing was lost, repeated or reordered.
  For \<open>n \<ge> 1\<close>, \<^verbatim>\<open>coming_up(n)\<close> returns the \<open>n\<close>-th pending token, and raises \<^verbatim>\<open>EOFError\<close>
  exactly when fewer than \<open>n\<close> are pending; it leaves the pending tokens as they were,
  so the next \<open>k\<close> calls of \<^verbatim>\<open>pop\<close> return them in order (and raise \<^verbatim>\<open>StopIteration\<close> once
  they are used up); it takes from the iterator only the tokens the deque lacks; and a
  second \<^verbatim>\<open>coming_up(n)\<close> changes nothing and returns the same.
\<close>

theorem coming_up_peeks_without_consuming:
  assumes "interleave ops (new_cursor tokens) = (consumed, c)" and "1 \<le> n"
  shows "consumed @ pending c = tokens
    \<and> fst (coming_up n c) =
        (if nat n \<le> length (pending c) then Inr (pending c ! (nat n - 1)) else Inl EOFError)
    \<and> pending (snd (coming_up n c)) = pending c
    \<and> pops k (snd (coming_up n c)) =
        map Inr (take k (pending c)) @ replicate (k - length (pending c)) (Inl StopIteration)
    \<and> iterator (snd (coming_up n c)) = drop (nat n - length (coming_up_stack c)) (iterator c)
    \<and> coming_up n (snd (coming_up n c)) = coming_up n c"
proof -
  have "consumed @ pending c = tokens"
    using interleave_pending [OF assms(1)] by simp
  moreover have "fst (coming_up n c) =
      (if nat n \<le> length (pending c) then Inr (pending c ! (nat n - 1)) else Inl EOFError)"
    using assms(2) by (rule coming_up_result)
  moreover have "pops k (snd (coming_up n c)) =
      map Inr (take k (pending c)) @ replicate (k - length (pending c)) (Inl StopIteration)"
    by (simp add: pops_pending coming_up_pending)
  ultimately show ?thesis
    by (simp add: coming_up_pending coming_up_iterator coming_up_again)
qed

theorem coming_up_peeks_without_consuming_witness:
  "[Token ''NAME'' ''a'' (0::nat) 1] @
     pending \<lparr>iterator = [Token ''OP'' '';'' 6 7],
       coming_up_stack = [Token ''INTEGER'' ''1'' 4 5, Token ''OP'' ''='' 2 3]\<rparr>
     = [Token ''NAME'' ''a'' 0 1, Token ''OP'' ''='' 2 3, Token ''INTEGER'' ''1'' 4 5,
        Token ''OP'' '';'' 6 7]
   \<and> fst (coming_up 3 \<lparr>iterator = [Token ''OP'' '';'' (6::nat) 7],
       coming_up_stack = [Token ''INTEGER'' ''1'' 4 5, Token ''OP'' ''='' 2 3]\<rparr>)
     = Inr (Token ''OP'' '';'' 6 7)
   \<and> pops 4 (snd (coming_up 3 \<lparr>iterator = [Token ''OP'' '';'' (6::nat) 7],
       coming_up_stack = [Token ''INTEGER'' ''1'' 4 5, Token ''OP'' ''='' 2 3]\<rparr>))
     = [Inr (Token ''OP'' ''='' 2 3), Inr (Token ''INTEGER'' ''1'' 4 5),
        Inr (Token ''OP'' '';'' 6 7), Inl StopIteration]"
proof -
  have i: "interleave [Coming_up 1, Pop, Coming_up 2, Something_coming_up]
      (new_cursor [Token ''NAME'' ''a'' (0::nat) 1, Token ''OP'' ''='' 2 3,
        Token ''INTEGER'' ''1'' 4 5, Token ''OP'' '';'' 6 7])
    = ([Token ''NAME'' ''a'' 0 1],
       \<lparr>iterator = [Token ''OP'' '';'' 6 7],
         coming_up_stack = [Token ''INTEGER'' ''1'' 4 5, Token ''OP'' ''='' 2 3]\<rparr>)"
    by (simp add: new_cursor_def coming_up.simps pop_def deque_index_def something_coming_up_def)
  show ?thesis
    using coming_up_peeks_without_consuming [OF i, of 3 4]
    by (simp add: pending_def eval_nat_numeral)
qed

subsection \<open>C7: calls nest to the left\<close>

text \<open>
  A call suffix whose tokens are parsed to their end keeps its arguments whatever
  follows it and however large the counter is.
\<close>

lemma more_fuel_run:
  "more_fuel p q \<Longrightarrow> fst (run p l) \<noteq> Inl OutOfFuel \<Longrightarrow> run q l = run p l"
  by (simp add: run_def observe_def more_fuel_def)

lemma more_fuel_arguments_add:
  "more_fuel (parse_comma_list m stop (parse_expression m))
     (parse_comma_list (m + k) stop (parse_expression (m + k)))"
proof (induction k)
  case 0
  show ?case by (simp add: more_fuel_refl)
next
  case (Suc k)
  have "more_fuel (parse_comma_list (m + k) stop (parse_expression (m + k)))
      (parse_comma_list (Suc (m + k)) stop (parse_expression (Suc (m + k))))"
    by (intro more_fuel_parse_comma_list more_fuel_parse_expression)
  with Suc show ?case by (auto intro: more_fuel_trans)
qed

lemma arguments_anywhere:
  assumes "run (parse_comma_list m '')'' (parse_expression m)) toks = (Inr (arguments, last_token), [])"
    and "m \<le> k"
  shows "run (parse_comma_list k '')'' (parse_expression k)) (toks @ l)
    = (Inr (arguments, last_token), l)"
proof -
  have "run (parse_comma_list m '')'' (parse_expression m)) (toks @ l)
      = (Inr (arguments, last_token), l)"
  proof (rule parse_comma_list_local
      [OF on_pending_parse_expression consuming_parse_expression local_parse_expression])
    show "not_open_paren t" if "info t = (''OP'', '')'')" for t :: "'a token"
      using that by (simp add: not_open_paren_def)
    show "not_open_paren t" if "info t = (''OP'', '','')" for t :: "'a token"
      using that by (simp add: not_open_paren_def)
    show "run (parse_comma_list m '')'' (parse_expression m)) (toks @ [])
        = (Inr (arguments, last_token), [])"
      using assms(1) by simp
  qed
  moreover from assms(2) obtain j where "k = m + j" by (auto simp add: le_iff_add)
  ultimately show ?thesis
    using more_fuel_run [OF more_fuel_arguments_add, of m "'')''" "toks @ l" j] by simp
qed

lemma loop_parses_calls:
  assumes "rest \<noteq> []" "info (hd rest) \<noteq> (''OP'', ''('')"
  shows "\<forall>s \<in> set calls. is_call_suffix m s \<Longrightarrow> m + length calls < k
    \<Longrightarrow> run (parse_expression_loop k result) (concat (map suffix_tokens calls) @ rest)
        = (Inr (foldl call_of result calls), rest)"
proof (induction calls arbitrary: k result)
  case Nil
  from Nil(2) obtain k' where k: "k = Suc k'" by (cases k) auto
  from assms obtain t ts where "rest = t # ts" "info t \<noteq> (''OP'', ''('')"
    by (cases rest) auto
  with k show ?case by (auto simp add: run_parse_expression_loop_Suc info_def)
next
  case (Cons call calls)
  obtain paren toks arguments last_token where c: "call = (paren, toks, arguments, last_token)"
    by (cases call) auto
  from Cons.prems(2) obtain k' where k: "k = Suc k'" "m + length calls < k'" "m \<le> k'"
    by (cases k) auto
  from Cons.prems(1) c have p: "info paren = (''OP'', ''('')"
    and a: "run (parse_comma_list m '')'' (parse_expression m)) toks
        = (Inr (arguments, last_token), [])"
    by auto
  from Cons.prems(1) have "\<forall>s \<in> set calls. is_call_suffix m s" by simp
  from Cons.IH [OF this k(2)]
  have "run (parse_expression_loop k'
        (FunctionCall result arguments (node_start result) (token_end last_token)))
        (concat (map suffix_tokens calls) @ rest)
      = (Inr (foldl call_of
            (FunctionCall result arguments (node_start result) (token_end last_token)) calls), rest)" .
  with arguments_anywhere [OF a k(3)] c k(1) p show ?case
    by (simp add: run_parse_expression_loop_Suc info_def)
qed



subsection \<open>C6: a comma before the closing delimiter\<close>

text \<open>
  A trailing comma follows an element. A comma alone between the parentheses is no list:
  \<^verbatim>\<open>_parse_comma_list\<close> sees a token that is not the closing one and asks for an element,
  and \<^verbatim>\<open>a = f(,);\<close> is refused at the comma.
\<close>

lemma lone_comma_refused:
  "fst (parse (Suc (Suc (Suc (Suc (Suc (Suc k))))))
        [Token ''NAME'' ''a'' s1 e1, Token ''OP'' ''='' s2 e2, Token ''NAME'' ''f'' s3 e3,
         Token ''OP'' ''('' s4 e4, Token ''OP'' '','' s5 e5, Token ''OP'' '')'' s6 e6,
         Token ''OP'' '';'' s7 e7])
      = ([], Some (ValueError_invalid_token (Token ''OP'' '','' s5 e5)))"
  by (simp add: eval_simps)

text \<open>
  Claim C6. Let a comma list of expressions, or of the type-and-name pairs of a function
  definition, be parsed from tokens \<open>pre\<close>, at least one and the last of them not a
  comma, and a closing token, to the elements \<open>elements\<close>, consuming exactly these
  tokens. Then the same tokens \<open>pre\<close> followed by a comma and a closing parenthesis are
  parsed to the same \<open>elements\<close>, in the same order, and the comma and the parenthesis
  are consumed; the token returned is the new closing parenthesis. In particular
  \<^verbatim>\<open>a = f(1, "x",);\<close> and \<^verbatim>\<open>a = f(1, "x");\<close> parse to the same assignment, where the call
  ends at the closing parenthesis.
\<close>

theorem trailing_comma_same_elements:
  "(\<forall>pre closing rest comma closing' rest' elements last_token (c :: 'pos cursor) c'.
      pending c = pre @ closing # rest \<and> pre \<noteq> [] \<and> info (last pre) \<noteq> (''OP'', '','')
      \<and> observe (parse_comma_list n '')'' (parse_expression m) c)
          = (Inr (elements, last_token), rest)
      \<and> pending c' = pre @ comma # closing' # rest'
      \<and> info comma = (''OP'', '','') \<and> info closing' = (''OP'', '')'')
      \<longrightarrow> observe (parse_comma_list n '')'' (parse_expression m) c')
          = (Inr (elements, closing'), rest'))
   \<and> (\<forall>pre closing rest comma closing' rest' elements last_token (c :: 'pos cursor) c'.
      pending c = pre @ closing # rest \<and> pre \<noteq> [] \<and> info (last pre) \<noteq> (''OP'', '','')
      \<and> observe (parse_comma_list n '')'' type_and_name c) = (Inr (elements, last_token), rest)
      \<and> pending c' = pre @ comma # closing' # rest'
      \<and> info comma = (''OP'', '','') \<and> info closing' = (''OP'', '')'')
      \<longrightarrow> observe (parse_comma_list n '')'' type_and_name c') = (Inr (elements, closing'), rest'))
   \<and> fst (parse (Suc (Suc (Suc (Suc (Suc (Suc k))))))
        [Token ''NAME'' ''a'' s1 e1, Token ''OP'' ''='' s2 e2, Token ''NAME'' ''f'' s3 e3,
         Token ''OP'' ''('' s4 e4, Token ''INTEGER'' ''1'' s5 e5, Token ''OP'' '','' s6 e6,
         Token ''STRING'' ''\"x\"'' s7 e7, Token ''OP'' '','' s8 e8, Token ''OP'' '')'' s9 e9,
         Token ''OP'' '';'' s10 e10])
      = ([Assignment (Name ''a'' s1 e1)
           (FunctionCall (Name ''f'' s3 e3) [Integer 1 s5 e5, String ''x'' s7 e7] s3 e9)
           s1 e10], None)
   \<and> fst (parse (Suc (Suc (Suc (Suc (Suc (Suc k))))))
        [Token ''NAME'' ''a'' s1 e1, Token ''OP'' ''='' s2 e2, Token ''NAME'' ''f'' s3 e3,
         Token ''OP'' ''('' s4 e4, Token ''INTEGER'' ''1'' s5 e5, Token ''OP'' '','' s6 e6,
         Token ''STRING'' ''\"x\"'' s7 e7, Token ''OP'' '')'' s9 e9, Token ''OP'' '';'' s10 e10])
      = ([Assignment (Name ''a'' s1 e1)
           (FunctionCall (Name ''f'' s3 e3) [Integer 1 s5 e5, String ''x'' s7 e7] s3 e9)
           s1 e10], None)"
proof -
  have o: "observe (parse_comma_list n '')'' parsemethod d)
      = run (parse_comma_list n '')'' parsemethod) (pending d)"
    if "on_pending parsemethod" for parsemethod :: "'pos cursor \<Rightarrow> ('pos error + 'b) \<times> 'pos cursor"
      and d
    by (rule on_pendingD) (rule on_pending_parse_comma_list [OF that])
  have a: "observe (parse_comma_list n '')'' (parse_expression m) c')
        = (Inr (elements, closing'), rest')"
    if "pending c = pre @ closing # rest" "pre \<noteq> []" "info (last pre) \<noteq> (''OP'', '','')"
      "observe (parse_comma_list n '')'' (parse_expression m) c) = (Inr (elements, last_token), rest)"
      "pending c' = pre @ comma # closing' # rest'"
      "info comma = (''OP'', '','')" "info closing' = (''OP'', '')'')"
    for pre closing rest comma closing' rest' elements last_token and c c' :: "'pos cursor"
  proof -
    have "run (parse_comma_list n '')'' (parse_expression m)) (pre @ comma # closing' # rest')
        = (Inr (elements, closing'), rest')"
    proof (rule parse_comma_list_trailing_comma
        [OF on_pending_parse_expression consuming_parse_expression local_parse_expression])
      show "not_open_paren t" if "info t = (''OP'', '','')" for t :: "'pos token"
        using that by (simp add: not_open_paren_def)
      show "'')'' \<noteq> '',''" by simp
      show "run (parse_comma_list n '')'' (parse_expression m)) (pre @ closing # rest)
          = (Inr (elements, last_token), rest)"
        using that(1,4) by (simp add: o on_pending_parse_expression)
    qed (rule that)+
    with that(5) show ?thesis by (simp add: o on_pending_parse_expression)
  qed
  have b: "observe (parse_comma_list n '')'' type_and_name c') = (Inr (elements, closing'), rest')"
    if "pending c = pre @ closing # rest" "pre \<noteq> []" "info (last pre) \<noteq> (''OP'', '','')"
      "observe (parse_comma_list n '')'' type_and_name c) = (Inr (elements, last_token), rest)"
      "pending c' = pre @ comma # closing' # rest'"
      "info comma = (''OP'', '','')" "info closing' = (''OP'', '')'')"
    for pre closing rest comma closing' rest' elements last_token and c c' :: "'pos cursor"
  proof -
    have "run (parse_comma_list n '')'' type_and_name) (pre @ comma # closing' # rest')
        = (Inr (elements, closing'), rest')"
    proof (rule parse_comma_list_trailing_comma
        [OF on_pending_type_and_name consuming_type_and_name local_type_and_name])
      show "'')'' \<noteq> '',''" by simp
      show "run (parse_comma_list n '')'' type_and_name) (pre @ closing # rest)
          = (Inr (elements, last_token), rest)"
        using that(1,4) by (simp add: o on_pending_type_and_name)
    qed (simp_all add: that)
    with that(5) show ?thesis by (simp add: o on_pending_type_and_name)
  qed
  have c: "fst (parse (Suc (Suc (Suc (Suc (Suc (Suc k))))))
        [Token ''NAME'' ''a'' s1 e1, Token ''OP'' ''='' s2 e2, Token ''NAME'' ''f'' s3 e3,
         Token ''OP'' ''('' s4 e4, Token ''INTEGER'' ''1'' s5 e5, Token ''OP'' '','' s6 e6,
         Token ''STRING'' ''\"x\"'' s7 e7, Token ''OP'' '','' s8 e8, Token ''OP'' '')'' s9 e9,
         Token ''OP'' '';'' s10 e10])
      = ([Assignment (Name ''a'' s1 e1)
           (FunctionCall (Name ''f'' s3 e3) [Integer 1 s5 e5, String ''x'' s7 e7] s3 e9)
           s1 e10], None)"
    by (simp add: eval_simps)
  have d: "fst (parse (Suc (Suc (Suc (Suc (Suc (Suc k))))))
        [Token ''NAME'' ''a'' s1 e1, Token ''OP'' ''='' s2 e2, Token ''NAME'' ''f'' s3 e3,
         Token ''OP'' ''('' s4 e4, Token ''INTEGER'' ''1'' s5 e5, Token ''OP'' '','' s6 e6,
         Token ''STRING'' ''\"x\"'' s7 e7, Token ''OP'' '')'' s9 e9, Token ''OP'' '';'' s10 e10])
      = ([Assignment (Name ''a'' s1 e1)
           (FunctionCall (Name ''f'' s3 e3) [Integer 1 s5 e5, String ''x'' s7 e7] s3 e9)
           s1 e10], None)"
    by (simp add: eval_simps)
  from a b c d show ?thesis by blast
qed

theorem trailing_comma_same_elements_witness:
  "observe (parse_comma_list (Suc (Suc 0)) '')'' (parse_expression (Suc (Suc 0)))
      (new_cursor [Token ''INTEGER'' ''1'' (6::nat) 7, Token ''OP'' '','' 7 8,
        Token ''STRING'' ''\"x\"'' 9 12, Token ''OP'' '','' 12 13, Token ''OP'' '')'' 13 14,
        Token ''OP'' '';'' 14 15]))
     = (Inr ([Integer 1 6 7, String ''x'' 9 12], Token ''OP'' '')'' 13 14),
        [Token ''OP'' '';'' 14 15])"
proof -
  have r: "run (parse_comma_list (Suc (Suc 0)) '')'' (parse_expression (Suc (Suc 0))))
      [Token ''INTEGER'' ''1'' (6::nat) 7, Token ''OP'' '','' 7 8,
        Token ''STRING'' ''\"x\"'' 9 12, Token ''OP'' '')'' 12 13, Token ''OP'' '';'' 13 14]
    = (Inr ([Integer 1 6 7, String ''x'' 9 12], Token ''OP'' '')'' 12 13),
       [Token ''OP'' '';'' 13 14])"
    by (simp add: eval_simps)
  have "pending (new_cursor [Token ''INTEGER'' ''1'' (6::nat) 7, Token ''OP'' '','' 7 8,
          Token ''STRING'' ''\"x\"'' 9 12, Token ''OP'' '')'' 12 13, Token ''OP'' '';'' 13 14])
        = [Token ''INTEGER'' ''1'' 6 7, Token ''OP'' '','' 7 8, Token ''STRING'' ''\"x\"'' 9 12]
          @ Token ''OP'' '')'' 12 13 # [Token ''OP'' '';'' 13 14]
    \<and> [Token ''INTEGER'' ''1'' (6::nat) 7, Token ''OP'' '','' 7 8,
          Token ''STRING'' ''\"x\"'' 9 12] \<noteq> []
    \<and> info (last [Token ''INTEGER'' ''1'' (6::nat) 7, Token ''OP'' '','' 7 8,
          Token ''STRING'' ''\"x\"'' 9 12]) \<noteq> (''OP'', '','')
    \<and> observe (parse_comma_list (Suc (Suc 0)) '')'' (parse_expression (Suc (Suc 0)))
          (new_cursor [Token ''INTEGER'' ''1'' (6::nat) 7, Token ''OP'' '','' 7 8,
            Token ''STRING'' ''\"x\"'' 9 12, Token ''OP'' '')'' 12 13, Token ''OP'' '';'' 13 14]))
        = (Inr ([Integer 1 6 7, String ''x'' 9 12], Token ''OP'' '')'' 12 13),
           [Token ''OP'' '';'' 13 14])
    \<and> pending (new_cursor [Token ''INTEGER'' ''1'' (6::nat) 7, Token ''OP'' '','' 7 8,
          Token ''STRING'' ''\"x\"'' 9 12, Token ''OP'' '','' 12 13, Token ''OP'' '')'' 13 14,
          Token ''OP'' '';'' 14 15])
        = [Token ''INTEGER'' ''1'' 6 7, Token ''OP'' '','' 7 8, Token ''STRING'' ''\"x\"'' 9 12]
          @ Token ''OP'' '','' 12 13 # Token ''OP'' '')'' 13 14 # [Token ''OP'' '';'' 14 15]
    \<and> info (Token ''OP'' '','' (12::nat) 13) = (''OP'', '','')
    \<and> info (Token ''OP'' '')'' (13::nat) 14) = (''OP'', '')'')"
    using r [unfolded run_def] by (simp add: info_def)
  from trailing_comma_same_elements [THEN conjunct1, rule_format, OF this]
  show ?thesis .
qed

subsection \<open>C9: the same tokens give the same tree\<close>

text \<open>
  Claim C9. Two parsers over equal sequences of tokens yield equal sequences of top-level
  nodes, and end in the same way. \<^verbatim>\<open>parse\<close> keeps no state between calls: a \<^verbatim>\<open>_Parser\<close> holds
  its cursor and nothing else, and \<^verbatim>\<open>KEYWORDS\<close> is only read. In the model a run is
  determined by the cursor it starts from and by the counter, so these are the two things
  in which two runs over the same tokens can differ. The theorem says that neither
  matters. Let \<open>c1\<close> and \<open>c2\<close> be cursors with the same pending tokens \<open>tokens\<close>, however
  many of them each has already buffered, and let \<open>n1\<close> and \<open>n2\<close> be counters larger than
  the number of tokens plus two. Then \<^verbatim>\<open>parse_file\<close> yields the same nodes and ends with
  the same exception, or with none, on \<open>c1\<close> with \<open>n1\<close> and on \<open>c2\<close> with \<open>n2\<close>; this
  outcome is the one of \<^verbatim>\<open>parse(tokens)\<close> on a fresh parser; and it is an outcome of the
  source, not the counter running out: the parse of any sequence of tokens ends.
\<close>

theorem parse_is_deterministic:
  assumes "pending c1 = tokens" and "pending c2 = tokens"
    and "length tokens + 2 < n1" and "length tokens + 2 < n2"
  shows "fst (parse_file n1 c1) = fst (parse_file n2 c2)
    \<and> fst (parse_file n1 c1) = fst (parse n1 tokens)
    \<and> snd (fst (parse n1 tokens)) \<noteq> Some OutOfFuel"
proof -
  let ?c = "new_cursor tokens"
  from assms(3) have a: "snd (fst (parse_file n1 ?c)) \<noteq> Some OutOfFuel"
    by (intro parse_file_enough_fuel) simp
  from assms(4) have b: "snd (fst (parse_file n2 ?c)) \<noteq> Some OutOfFuel"
    by (intro parse_file_enough_fuel) simp
  from a b have "parse_file n1 ?c = parse_file n2 ?c" by (rule parse_file_fuel_irrelevant)
  then have "fst (parse n1 tokens) = fst (parse n2 tokens)" by (simp add: parse_def)
  moreover have "fst (parse_file n1 c1) = fst (parse n1 tokens)"
    using parse_file_on_fresh_cursor [of n1 c1] assms(1) by simp
  moreover have "fst (parse_file n2 c2) = fst (parse n2 tokens)"
    using parse_file_on_fresh_cursor [of n2 c2] assms(2) by simp
  ultimately show ?thesis using a by (simp add: parse_def)
qed

theorem parse_is_deterministic_witness:
  "fst (parse_file (Suc (Suc (Suc (Suc (Suc 0)))))
         \<lparr>iterator = [Token ''OP'' '';'' 1 2], coming_up_stack = [Token ''NAME'' ''a'' 0 (1::nat)]\<rparr>)
     = fst (parse (Suc (Suc (Suc (Suc (Suc (Suc (Suc 0)))))))
              [Token ''NAME'' ''a'' 0 1, Token ''OP'' '';'' 1 2])
   \<and> fst (parse (Suc (Suc (Suc (Suc (Suc (Suc (Suc 0)))))))
              [Token ''NAME'' ''a'' 0 1, Token ''OP'' '';'' 1 (2::nat)])
     = ([ExpressionStatement (Name ''a'' 0 1) 0 2], None)"
proof -
  let ?tokens = "[Token ''NAME'' ''a'' 0 1, Token ''OP'' '';'' 1 (2::nat)]"
  let ?c1 = "\<lparr>iterator = [Token ''OP'' '';'' 1 2],
    coming_up_stack = [Token ''NAME'' ''a'' 0 (1::nat)]\<rparr>"
  have h1: "pending ?c1 = ?tokens" by (simp add: pending_def)
  have h2: "pending (new_cursor ?tokens) = ?tokens" by simp
  have h3: "length ?tokens + 2 < Suc (Suc (Suc (Suc (Suc 0))))" by simp
  have h4: "length ?tokens + 2 < Suc (Suc (Suc (Suc (Suc (Suc (Suc 0))))))" by simp
  have e: "fst (parse (Suc (Suc (Suc (Suc (Suc (Suc (Suc 0))))))) ?tokens)
     = ([ExpressionStatement (Name ''a'' 0 1) 0 2], None)"
    by (simp add: eval_simps)
  have "fst (parse_file (Suc (Suc (Suc (Suc (Suc 0))))) ?c1)
     = fst (parse_file (Suc (Suc (Suc (Suc (Suc (Suc (Suc 0))))))) (new_cursor ?tokens))"
    using parse_is_deterministic [OF h1 h2 h3 h4] by (rule conjunct1)
  then have "fst (parse_file (Suc (Suc (Suc (Suc (Suc 0))))) ?c1)
     = fst (parse (Suc (Suc (Suc (Suc (Suc (Suc (Suc 0))))))) ?tokens)"
    by (simp only: parse_def)
  from this e show ?thesis by (rule conjI)
qed

end
